theory Spec2Isabelle
  imports Main "HOL-Library.AList"
begin

section \<open>Data model of the workflow engine (app/engine.py)\<close>

text \<open>
  The values that flow through a run are Python objects. The engine only ever tests them
  for truthiness, stores them in the log, and (for the result of a routing callable) looks
  them up among the keys of the node dictionary, so a small value type is enough.
\<close>

datatype pyval =
    PyNone
  | PyBool bool
  | PyInt int
  | PyStr string
  | PyList "pyval list"
  | PyDict "(string \<times> pyval) list"

text \<open>Python truthiness, as used by \<^verbatim>\<open>if result:\<close>, \<^verbatim>\<open>if should_continue:\<close> and
  \<^verbatim>\<open>if next_node and ...\<close>.\<close>

fun truthy :: "pyval \<Rightarrow> bool" where
  "truthy PyNone = False"
| "truthy (PyBool b) = b"
| "truthy (PyInt i) = (i \<noteq> 0)"
| "truthy (PyStr s) = (s \<noteq> [])"
| "truthy (PyList xs) = (xs \<noteq> [])"
| "truthy (PyDict kvs) = (kvs \<noteq> [])"

text \<open>Truthiness of an \<^verbatim>\<open>Optional[str]\<close>: \<^verbatim>\<open>None\<close> and the empty string are falsy.\<close>

fun truthy_id :: "string option \<Rightarrow> bool" where
  "truthy_id None = False"
| "truthy_id (Some s) = (s \<noteq> [])"

text \<open>\<^verbatim>\<open>a or b\<close> on optional strings: the first operand when it is truthy, else the second.\<close>

definition py_or :: "string option \<Rightarrow> string option \<Rightarrow> string option" where
  "py_or a b = (if truthy_id a then a else b)"

datatype NodeType = STANDARD | CONDITIONAL | LOOP

text \<open>
  An entry of the execution log. The \<^verbatim>\<open>timestamp\<close> key of the source reads the wall clock
  and is never read back by the engine; it is not part of the model.
\<close>

record log_entry =
  node_id :: string
  message :: string
  result :: pyval

text \<open>
  \<^verbatim>\<open>WorkflowState\<close>. The run identity comes from \<^verbatim>\<open>uuid.uuid4()\<close> in the source; the model
  receives it as an argument of \<open>run_graph\<close>. \<^verbatim>\<open>created_at\<close> (wall clock) is left out.
\<close>

record WorkflowState =
  data :: "string \<rightharpoonup> pyval"
  current_node :: "string option"
  execution_log :: "log_entry list"
  run_id :: string
  completed :: bool
  error :: "string option"

text \<open>\<^verbatim>\<open>WorkflowState.log\<close>: append one entry.\<close>

definition log :: "WorkflowState \<Rightarrow> string \<Rightarrow> string \<Rightarrow> pyval \<Rightarrow> WorkflowState" where
  "log s nid msg res =
     s\<lparr>execution_log := execution_log s @ [\<lparr>node_id = nid, message = msg, result = res\<rparr>]\<rparr>"

text \<open>
  A callable receives the state object and may mutate it in any way before it returns a
  value or raises. \<open>Inl m\<close> is an \<^verbatim>\<open>Exception\<close> whose \<^verbatim>\<open>str(e)\<close> is \<open>m\<close>; the state that comes
  back carries the mutations made before the raise. Callables touch nothing but the state
  they are given, and a callable that never returns is outside the model. Only what
  \<^verbatim>\<open>except Exception\<close> catches counts as an exception.
\<close>

type_synonym callable = "WorkflowState \<Rightarrow> (string + pyval) \<times> WorkflowState"

text \<open>
  \<^verbatim>\<open>Node.func\<close> is a tool name (a \<^verbatim>\<open>str\<close>) until it is resolved, a callable afterwards, or
  some other object (\<open>NotCallable\<close> carries the name of its Python type).
  \<^verbatim>\<open>condition_func\<close> and \<^verbatim>\<open>loop_condition_func\<close> are \<^verbatim>\<open>None\<close> or a callable; the engine tests
  them for truthiness and calls them, so a falsy object there is as good as \<^verbatim>\<open>None\<close> and a
  truthy object that cannot be called is as good as a callable that raises \<^verbatim>\<open>TypeError\<close>.
\<close>

datatype step_ref = ToolName string | Callable callable | NotCallable string

record Node =
  ident :: string
  name :: string
  func :: step_ref
  node_type :: NodeType
  condition_func :: "callable option"
  loop_condition_func :: "callable option"

text \<open>\<^verbatim>\<open>ToolRegistry.tools\<close>: the engine only uses \<^verbatim>\<open>has_tool\<close> and \<^verbatim>\<open>get_tool\<close>.\<close>

type_synonym ToolRegistry = "string \<rightharpoonup> callable"

text \<open>The exceptions that leave the graph operations and \<^verbatim>\<open>run_graph\<close>, with their message.\<close>

datatype exn = ValueError string

definition quote :: string where
  "quote = [CHR 0x27]"

definition has_tool :: "ToolRegistry \<Rightarrow> string \<Rightarrow> bool" where
  "has_tool reg n = (reg n \<noteq> None)"

definition get_tool :: "ToolRegistry \<Rightarrow> string \<Rightarrow> exn + callable" where
  "get_tool reg n =
     (case reg n of
        None \<Rightarrow> Inl (ValueError (''Tool '' @ quote @ n @ quote @ '' not found''))
      | Some f \<Rightarrow> Inr f)"

text \<open>
  \<^verbatim>\<open>Graph\<close>. Python dictionaries keep insertion order, and \<^verbatim>\<open>get_start_node\<close> and
  \<^verbatim>\<open>resolve_functions\<close> depend on it, so \<^verbatim>\<open>nodes\<close> and \<^verbatim>\<open>edges\<close> are association lists:
  \<open>map_of\<close> reads a key, \<open>AList.update\<close> writes one (in place when the key exists, at the
  end otherwise, as a Python \<^verbatim>\<open>dict\<close> does).
\<close>

record Graph =
  graph_id :: string
  nodes :: "(string \<times> Node) list"
  edges :: "(string \<times> string) list"
  tool_registry :: "ToolRegistry option"

record WorkflowEngine =
  graphs :: "string \<rightharpoonup> Graph"
  runs :: "string \<rightharpoonup> WorkflowState"

section \<open>Graph operations\<close>

definition new_graph :: "string \<Rightarrow> Graph" where
  "new_graph gid = \<lparr>graph_id = gid, nodes = [], edges = [], tool_registry = None\<rparr>"

text \<open>\<^verbatim>\<open>Graph.add_node\<close>: the assignment \<^verbatim>\<open>self.nodes[node_id] = Node(...)\<close>.\<close>

definition add_node ::
  "Graph \<Rightarrow> string \<Rightarrow> string \<Rightarrow> step_ref \<Rightarrow> NodeType \<Rightarrow> callable option \<Rightarrow> callable option \<Rightarrow> Graph"
where
  "add_node g nid nm f ty cond loop_cond =
     g\<lparr>nodes := AList.update nid
          \<lparr>ident = nid, name = nm, func = f, node_type = ty,
           condition_func = cond, loop_condition_func = loop_cond\<rparr> (nodes g)\<rparr>"

definition has_node :: "Graph \<Rightarrow> string \<Rightarrow> bool" where
  "has_node g k = (map_of (nodes g) k \<noteq> None)"

text \<open>\<^verbatim>\<open>Graph.add_edge\<close>: both ends must be nodes of the graph.\<close>

definition add_edge :: "Graph \<Rightarrow> string \<Rightarrow> string \<Rightarrow> exn + Graph" where
  "add_edge g from_node to_node =
     (if \<not> has_node g from_node then Inl (ValueError (''Source node '' @ from_node @ '' not found''))
      else if \<not> has_node g to_node then Inl (ValueError (''Target node '' @ to_node @ '' not found''))
      else Inr (g\<lparr>edges := AList.update from_node to_node (edges g)\<rparr>))"

text \<open>
  The loop of \<^verbatim>\<open>resolve_functions\<close> over \<^verbatim>\<open>self.nodes.values()\<close>. Node objects are mutated
  in place, so when a node raises, the nodes before it stay resolved: the function returns
  the exception (if any) together with the node list as it is at that moment.
\<close>

fun resolve_nodes ::
  "ToolRegistry option \<Rightarrow> (string \<times> Node) list \<Rightarrow> exn option \<times> (string \<times> Node) list"
where
  "resolve_nodes reg [] = (None, [])"
| "resolve_nodes reg ((k, node) # rest) =
     (case func node of
        ToolName n \<Rightarrow>
          (case reg of
             None \<Rightarrow>
               (Some (ValueError (''Tool '' @ quote @ n @ quote @ '' not found in registry'')),
                (k, node) # rest)
           | Some r \<Rightarrow>
               if has_tool r n then
                 (case get_tool r n of
                    Inl e \<Rightarrow> (Some e, (k, node) # rest)
                  | Inr f \<Rightarrow>
                      (case resolve_nodes reg rest of
                         (e, rest') \<Rightarrow> (e, (k, node\<lparr>func := Callable f\<rparr>) # rest')))
               else
                 (Some (ValueError (''Tool '' @ quote @ n @ quote @ '' not found in registry'')),
                  (k, node) # rest))
      | Callable f \<Rightarrow>
          (case resolve_nodes reg rest of (e, rest') \<Rightarrow> (e, (k, node) # rest'))
      | NotCallable ty \<Rightarrow>
          (Some (ValueError (''Node '' @ ident node @ '' has invalid function'')),
           (k, node) # rest))"

text \<open>\<^verbatim>\<open>Graph.resolve_functions\<close>: the registry is stored first, then the nodes are resolved.\<close>

definition resolve_functions :: "ToolRegistry option \<Rightarrow> Graph \<Rightarrow> exn option \<times> Graph" where
  "resolve_functions reg g =
     (case resolve_nodes reg (nodes g) of
        (e, ns) \<Rightarrow> (e, g\<lparr>tool_registry := reg, nodes := ns\<rparr>))"

text \<open>\<^verbatim>\<open>Graph.get_start_node\<close>.\<close>

definition get_start_node :: "Graph \<Rightarrow> string option" where
  "get_start_node g =
     (if nodes g = [] then None
      else
        let target_nodes = set (map snd (edges g));
            start_nodes = filter (\<lambda>k. k \<notin> target_nodes) (map fst (nodes g))
        in case start_nodes of
             k # _ \<Rightarrow> Some k
           | [] \<Rightarrow> (case map fst (nodes g) of k # _ \<Rightarrow> Some k | [] \<Rightarrow> None))"

text \<open>\<^verbatim>\<open>Graph.get_next_node\<close>; the state is not used.\<close>

definition get_next_node :: "Graph \<Rightarrow> string \<Rightarrow> WorkflowState \<Rightarrow> string option" where
  "get_next_node g cur s = map_of (edges g) cur"

section \<open>The step loop of \<^verbatim>\<open>run_graph\<close>\<close>

definition max_iterations :: nat where
  "max_iterations = 1000"

text \<open>Calling \<^verbatim>\<open>node.func(state)\<close>: an object that is not callable raises \<^verbatim>\<open>TypeError\<close>.\<close>

fun call_func :: "step_ref \<Rightarrow> callable" where
  "call_func (Callable f) s = f s"
| "call_func (ToolName n) s = (Inl (quote @ ''str'' @ quote @ '' object is not callable''), s)"
| "call_func (NotCallable ty) s = (Inl (quote @ ty @ quote @ '' object is not callable''), s)"

text \<open>
  \<^verbatim>\<open>next_node and next_node in graph.nodes\<close> for the value a routing callable returned:
  a falsy value short-circuits, a string is looked up among the node keys, another hashable
  value is never a key, and an unhashable one makes \<^verbatim>\<open>in\<close> raise \<^verbatim>\<open>TypeError\<close>.
\<close>

fun routed :: "Graph \<Rightarrow> pyval \<Rightarrow> string + string option" where
  "routed g (PyStr t) = Inr (if t \<noteq> [] \<and> has_node g t then Some t else None)"
| "routed g (PyList xs) =
     (if xs \<noteq> [] then Inl (''unhashable type: '' @ quote @ ''list'' @ quote) else Inr None)"
| "routed g (PyDict kvs) =
     (if kvs \<noteq> [] then Inl (''unhashable type: '' @ quote @ ''dict'' @ quote) else Inr None)"
| "routed g v = Inr None"

text \<open>
  The outcome of one pass through the body of the \<^verbatim>\<open>while\<close> loop.
  \<open>BodyContinue\<close> goes back to the loop test with the new visited set and next node,
  \<open>BodyBreak\<close> is a \<^verbatim>\<open>break\<close>, \<open>BodyRaised\<close> an exception leaving the loop.
\<close>

datatype body_result =
    BodyContinue "string set" "string option" WorkflowState
  | BodyBreak WorkflowState
  | BodyRaised string WorkflowState

text \<open>Lines 167-176: the completion check and the visited-set heuristic.\<close>

definition check_completion ::
  "Node \<Rightarrow> string set \<Rightarrow> string option \<Rightarrow> WorkflowState \<Rightarrow> body_result" where
  "check_completion node visited nxt s =
     (case nxt of
        None \<Rightarrow> BodyBreak ((log s ''engine'' ''Workflow completed'' PyNone)\<lparr>completed := True\<rparr>)
      | Some n \<Rightarrow>
          if n = [] then
            BodyBreak ((log s ''engine'' ''Workflow completed'' PyNone)\<lparr>completed := True\<rparr>)
          else
            BodyContinue
              (insert n (if n \<in> visited \<and> node_type node \<noteq> LOOP then {} else visited))
              nxt s)"

text \<open>Lines 135 and 138: the node is entered.\<close>

definition enter_node :: "Node \<Rightarrow> string \<Rightarrow> WorkflowState \<Rightarrow> WorkflowState" where
  "enter_node node c s =
     log (s\<lparr>current_node := Some c\<rparr>) (ident node) (''Executing node: '' @ name node) PyNone"

text \<open>Lines 141-142: a truthy result of the step callable is logged.\<close>

definition record_result :: "Node \<Rightarrow> pyval \<Rightarrow> WorkflowState \<Rightarrow> WorkflowState" where
  "record_result node res s =
     (if truthy res then log s (ident node) ''Node completed'' res else s)"

text \<open>
  The callable that takes part in the routing decision: \<^verbatim>\<open>loop_condition_func\<close> counts only
  on a \<^verbatim>\<open>LOOP\<close> node and \<^verbatim>\<open>condition_func\<close> only on a \<^verbatim>\<open>CONDITIONAL\<close> node (lines 145 and 158).
\<close>

definition loop_callable :: "Node \<Rightarrow> callable option" where
  "loop_callable node = (if node_type node = LOOP then loop_condition_func node else None)"

definition routing_callable :: "Node \<Rightarrow> callable option" where
  "routing_callable node =
     (if node_type node = CONDITIONAL then condition_func node else None)"

text \<open>Lines 144-176: the routing decision after the step callable has returned.\<close>

definition route ::
  "Graph \<Rightarrow> string set \<Rightarrow> string \<Rightarrow> Node \<Rightarrow> WorkflowState \<Rightarrow> body_result" where
  "route g visited c node s =
     (case loop_callable node of
        Some loop_cond \<Rightarrow>
          (case loop_cond s of
             (Inl m, s') \<Rightarrow> BodyRaised m s'
           | (Inr should_continue, s') \<Rightarrow>
               if truthy should_continue then
                 BodyContinue visited (get_next_node g c s')
                   (log s' (ident node) ''Loop condition met, continuing loop'' PyNone)
               else
                 BodyContinue visited None
                   (log s' (ident node) ''Loop condition not met, exiting loop'' PyNone))
      | None \<Rightarrow>
          (case routing_callable node of
             Some cond \<Rightarrow>
               (case cond s of
                  (Inl m, s') \<Rightarrow> BodyRaised m s'
                | (Inr next_node, s') \<Rightarrow>
                    (case routed g next_node of
                       Inl m \<Rightarrow> BodyRaised m s'
                     | Inr (Some t) \<Rightarrow> check_completion node visited (Some t) s'
                     | Inr None \<Rightarrow> check_completion node visited (get_next_node g c s') s'))
           | None \<Rightarrow> check_completion node visited (get_next_node g c s) s))"

text \<open>Lines 128-176: one pass through the loop body.\<close>

definition loop_body :: "Graph \<Rightarrow> string set \<Rightarrow> string \<Rightarrow> WorkflowState \<Rightarrow> body_result" where
  "loop_body g visited c s =
     (case map_of (nodes g) c of
        None \<Rightarrow> BodyBreak (s\<lparr>error := Some (''Node '' @ c @ '' not found in graph'')\<rparr>)
      | Some node \<Rightarrow>
          (case call_func (func node) (enter_node node c s) of
             (Inl m, s1) \<Rightarrow> BodyRaised m s1
           | (Inr res, s1) \<Rightarrow> route g visited c node (record_result node res s1)))"

text \<open>
  The \<^verbatim>\<open>while current_node_id and iteration < max_iterations\<close> loop. The result says
  whether the loop was left by an exception, and gives the iteration counter and the state
  at that moment.
\<close>

datatype loop_exit = Finished | Raised string

function run_loop ::
  "Graph \<Rightarrow> string set \<Rightarrow> nat \<Rightarrow> string option \<Rightarrow> WorkflowState \<Rightarrow> loop_exit \<times> nat \<times> WorkflowState"
where
  "run_loop g visited iteration cur s =
     (case cur of
        None \<Rightarrow> (Finished, iteration, s)
      | Some c \<Rightarrow>
          if c \<noteq> [] \<and> iteration < max_iterations then
            (case loop_body g visited c s of
               BodyContinue visited' nxt s' \<Rightarrow> run_loop g visited' (Suc iteration) nxt s'
             | BodyBreak s' \<Rightarrow> (Finished, Suc iteration, s')
             | BodyRaised m s' \<Rightarrow> (Raised m, Suc iteration, s'))
          else (Finished, iteration, s))"
  by pat_completeness auto
termination
  by (relation "measure (\<lambda>(g, visited, iteration, cur, s). max_iterations - iteration)") auto

declare run_loop.simps [simp del]

text \<open>Lines 178-180, after the loop and still inside \<^verbatim>\<open>try\<close>.\<close>

definition after_loop :: "nat \<Rightarrow> WorkflowState \<Rightarrow> WorkflowState" where
  "after_loop iteration s =
     (if iteration \<ge> max_iterations
      then s\<lparr>error := Some ''Maximum iterations reached'', completed := True\<rparr>
      else s)"

text \<open>Lines 182-185, the \<^verbatim>\<open>except Exception\<close> handler.\<close>

definition on_exception :: "string \<Rightarrow> WorkflowState \<Rightarrow> WorkflowState" where
  "on_exception m s = log (s\<lparr>error := Some m, completed := True\<rparr>) ''engine'' (''Error: '' @ m) PyNone"

text \<open>The \<^verbatim>\<open>try\<close> statement, entered with the loop variables as given.\<close>

definition run_from ::
  "Graph \<Rightarrow> string set \<Rightarrow> nat \<Rightarrow> string option \<Rightarrow> WorkflowState \<Rightarrow> WorkflowState" where
  "run_from g visited iteration cur s =
     (case run_loop g visited iteration cur s of
        (Raised m, it, s') \<Rightarrow> on_exception m s'
      | (Finished, it, s') \<Rightarrow> after_loop it s')"

text \<open>Lines 113-187: everything after the resolution of the step references.\<close>

definition run_resolved :: "Graph \<Rightarrow> string option \<Rightarrow> WorkflowState \<Rightarrow> WorkflowState" where
  "run_resolved g start_node s =
     (case py_or start_node (get_start_node g) of
        None \<Rightarrow> s\<lparr>error := Some ''No start node found'', completed := True\<rparr>
      | Some c \<Rightarrow>
          if c = [] then s\<lparr>error := Some ''No start node found'', completed := True\<rparr>
          else run_from g {} 0 (Some c)
                 (log s ''engine'' (''Starting workflow from node: '' @ c) PyNone))"

definition new_state :: "(string \<rightharpoonup> pyval) \<Rightarrow> string \<Rightarrow> WorkflowState" where
  "new_state initial_state rid =
     \<lparr>data = initial_state, current_node = None, execution_log = [], run_id = rid,
      completed = False, error = None\<rparr>"

text \<open>
  \<^verbatim>\<open>WorkflowEngine.run_graph\<close>. The state object is put in \<^verbatim>\<open>self.runs\<close> before anything else
  happens and is mutated in place afterwards, and the graph object in \<^verbatim>\<open>self.graphs\<close> is
  mutated by the resolution; the engine that comes back (\<open>stored\<close>) shows both as they
  are when the call returns or raises. \<open>rid\<close> is the fresh run identity.
\<close>

definition stored ::
  "WorkflowEngine \<Rightarrow> string \<Rightarrow> Graph \<Rightarrow> string \<Rightarrow> WorkflowState \<Rightarrow> WorkflowEngine" where
  "stored eng gid graph rid state =
     \<lparr>graphs = (graphs eng)(gid \<mapsto> graph), runs = (runs eng)(rid \<mapsto> state)\<rparr>"

definition run_graph ::
  "WorkflowEngine \<Rightarrow> string \<Rightarrow> (string \<rightharpoonup> pyval) \<Rightarrow> string option \<Rightarrow> ToolRegistry option \<Rightarrow>
   string \<Rightarrow> (exn + WorkflowState) \<times> WorkflowEngine"
where
  "run_graph eng gid initial_state start_node reg rid =
     (case graphs eng gid of
        None \<Rightarrow> (Inl (ValueError (''Graph '' @ gid @ '' not found'')), eng)
      | Some graph \<Rightarrow>
          let state = new_state initial_state rid
          in (case resolve_functions reg graph of
                (Some e, graph') \<Rightarrow> (Inl e, stored eng gid graph' rid state)
              | (None, graph') \<Rightarrow>
                  let final = run_resolved graph' start_node state
                  in (Inr final, stored eng gid graph' rid final)))"

definition get_run_state :: "WorkflowEngine \<Rightarrow> string \<Rightarrow> WorkflowState option" where
  "get_run_state eng rid = runs eng rid"

section \<open>Notions used in the statements\<close>

subsection \<open>Passes of the loop\<close>

text \<open>
  The loop variables \<^verbatim>\<open>(visited_nodes, iteration, current_node_id, state)\<close> at the loop
  test, and where they stand after \<open>n\<close> further passes through the body that all came back
  to the test (\<open>None\<close> when the loop is left before that).
\<close>

type_synonym config = "string set \<times> nat \<times> string option \<times> WorkflowState"

fun passes :: "Graph \<Rightarrow> nat \<Rightarrow> config \<Rightarrow> config option" where
  "passes g 0 cfg = Some cfg"
| "passes g (Suc n) (visited, iteration, None, s) = None"
| "passes g (Suc n) (visited, iteration, Some c, s) =
     (if c \<noteq> [] \<and> iteration < max_iterations then
        (case loop_body g visited c s of
           BodyContinue visited' nxt s' \<Rightarrow> passes g n (visited', Suc iteration, nxt, s')
         | BodyBreak s' \<Rightarrow> None
         | BodyRaised m s' \<Rightarrow> None)
      else None)"

text \<open>The loop variables with which \<open>run_resolved\<close> enters the loop from start node \<open>c\<close>.\<close>

definition initial_config :: "string \<Rightarrow> WorkflowState \<Rightarrow> config" where
  "initial_config c s =
     ({}, 0, Some c, log s ''engine'' (''Starting workflow from node: '' @ c) PyNone)"


subsection \<open>Graphs\<close>

text \<open>The node identities in declaration order, and whether a default edge points at one.\<close>

definition declared :: "Graph \<Rightarrow> string list" where
  "declared g = map fst (nodes g)"

definition has_incoming :: "Graph \<Rightarrow> string \<Rightarrow> bool" where
  "has_incoming g k = (k \<in> snd ` set (edges g))"

text \<open>
  Every node has a default edge, and it leads to a node of the graph: the default edges
  never leave the graph, so following them goes round a cycle for ever.
\<close>

definition every_node_has_successor :: "Graph \<Rightarrow> bool" where
  "every_node_has_successor g =
     (\<forall>k \<in> fst ` set (nodes g). \<exists>t. map_of (edges g) k = Some t \<and> has_node g t)"

definition nonempty_ids :: "Graph \<Rightarrow> bool" where
  "nonempty_ids g = ([] \<notin> fst ` set (nodes g))"

definition all_standard :: "Graph \<Rightarrow> bool" where
  "all_standard g = (\<forall>(k, node) \<in> set (nodes g). node_type node = STANDARD)"

text \<open>A callable that returns a value, whatever the state it is given.\<close>

definition returns_normally :: "callable \<Rightarrow> bool" where
  "returns_normally f = (\<forall>s. \<exists>res s'. f s = (Inr res, s'))"

definition steps_return :: "Graph \<Rightarrow> bool" where
  "steps_return g =
     (\<forall>(k, node) \<in> set (nodes g). \<exists>f. func node = Callable f \<and> returns_normally f)"

definition is_resolved :: "Node \<Rightarrow> bool" where
  "is_resolved node = (case func node of Callable f \<Rightarrow> True | _ \<Rightarrow> False)"

subsection \<open>Resolution failures\<close>

definition registered :: "ToolRegistry option \<Rightarrow> string \<Rightarrow> bool" where
  "registered reg t = (case reg of None \<Rightarrow> False | Some r \<Rightarrow> has_tool r t)"

definition tool_not_found :: "string \<Rightarrow> exn" where
  "tool_not_found t = ValueError (''Tool '' @ quote @ t @ quote @ '' not found in registry'')"

definition invalid_function :: "Node \<Rightarrow> exn" where
  "invalid_function node = ValueError (''Node '' @ ident node @ '' has invalid function'')"

text \<open>\<open>e\<close> is the error that resolving this node raises.\<close>

definition unresolvable :: "ToolRegistry option \<Rightarrow> Node \<Rightarrow> exn \<Rightarrow> bool" where
  "unresolvable reg node e =
     (case func node of
        ToolName t \<Rightarrow> \<not> registered reg t \<and> e = tool_not_found t
      | Callable f \<Rightarrow> False
      | NotCallable ty \<Rightarrow> e = invalid_function node)"

definition resolution_failure :: "ToolRegistry option \<Rightarrow> Graph \<Rightarrow> exn \<Rightarrow> bool" where
  "resolution_failure reg g e = list_ex (\<lambda>(k, node). unresolvable reg node e) (nodes g)"

subsection \<open>Errors raised by callables\<close>

text \<open>
  In the pass that enters node \<open>c\<close> in state \<open>s\<close>, one of the three callables of the node
  raises an exception with message \<open>m\<close>, leaving the state as \<open>s'\<close>.
\<close>

definition step_raises :: "Node \<Rightarrow> string \<Rightarrow> WorkflowState \<Rightarrow> string \<Rightarrow> WorkflowState \<Rightarrow> bool" where
  "step_raises node c s m s' = (call_func (func node) (enter_node node c s) = (Inl m, s'))"

definition loop_condition_raises ::
  "Node \<Rightarrow> string \<Rightarrow> WorkflowState \<Rightarrow> string \<Rightarrow> WorkflowState \<Rightarrow> bool" where
  "loop_condition_raises node c s m s' =
     (\<exists>res s1 loop_cond.
        call_func (func node) (enter_node node c s) = (Inr res, s1) \<and>
        node_type node = LOOP \<and> loop_condition_func node = Some loop_cond \<and>
        loop_cond (record_result node res s1) = (Inl m, s'))"

definition routing_raises ::
  "Node \<Rightarrow> string \<Rightarrow> WorkflowState \<Rightarrow> string \<Rightarrow> WorkflowState \<Rightarrow> bool" where
  "routing_raises node c s m s' =
     (\<exists>res s1 cond.
        call_func (func node) (enter_node node c s) = (Inr res, s1) \<and>
        node_type node = CONDITIONAL \<and> condition_func node = Some cond \<and>
        cond (record_result node res s1) = (Inl m, s'))"

definition callable_raises ::
  "Graph \<Rightarrow> string \<Rightarrow> WorkflowState \<Rightarrow> string \<Rightarrow> WorkflowState \<Rightarrow> bool" where
  "callable_raises g c s m s' =
     (\<exists>node. map_of (nodes g) c = Some node \<and>
        (step_raises node c s m s' \<or> loop_condition_raises node c s m s' \<or>
         routing_raises node c s m s'))"

text \<open>The log entry that the exception handler appends.\<close>

definition error_entry :: "string \<Rightarrow> log_entry" where
  "error_entry m = \<lparr>node_id = ''engine'', message = ''Error: '' @ m, result = PyNone\<rparr>"

section \<open>The writes of a run, in order\<close>

text \<open>
  To speak about what the engine does after a given write, the run is unfolded into the
  list of states it goes through: one entry for the creation of the state, one after each
  statement of \<^verbatim>\<open>run_graph\<close> that writes the state (\<^verbatim>\<open>state.error = ...\<close>,
  \<^verbatim>\<open>state.completed = True\<close>, \<^verbatim>\<open>state.current_node = ...\<close>, \<^verbatim>\<open>state.log(...)\<close>) and one after
  each call of a callable, in the order of execution. The functions below follow
  \<open>check_completion\<close>, \<open>route\<close>, \<open>loop_body\<close>, \<open>run_loop\<close>, \<open>run_from\<close> and \<open>run_resolved\<close>
  statement by statement; \<open>run_trace_chained\<close> shows that every entry comes from the one
  before it by the write it names, and \<open>run_trace_last\<close> that the last entry is the state
  that \<open>run_resolved\<close> returns.
\<close>

datatype action = Created | SetCurrentNode | AppendLog | Invoke | SetError | SetCompleted

type_synonym trace = "(action \<times> WorkflowState) list"

definition completion_trace :: "string option \<Rightarrow> WorkflowState \<Rightarrow> trace" where
  "completion_trace nxt s =
     (if truthy_id nxt then []
      else [(AppendLog, log s ''engine'' ''Workflow completed'' PyNone),
            (SetCompleted, (log s ''engine'' ''Workflow completed'' PyNone)\<lparr>completed := True\<rparr>)])"

definition route_trace :: "Graph \<Rightarrow> string \<Rightarrow> Node \<Rightarrow> WorkflowState \<Rightarrow> trace" where
  "route_trace g c node s =
     (case loop_callable node of
        Some loop_cond \<Rightarrow>
          (case loop_cond s of
             (Inl m, s') \<Rightarrow> [(Invoke, s')]
           | (Inr should_continue, s') \<Rightarrow>
               [(Invoke, s'),
                (AppendLog,
                 if truthy should_continue
                 then log s' (ident node) ''Loop condition met, continuing loop'' PyNone
                 else log s' (ident node) ''Loop condition not met, exiting loop'' PyNone)])
      | None \<Rightarrow>
          (case routing_callable node of
             Some cond \<Rightarrow>
               (case cond s of
                  (Inl m, s') \<Rightarrow> [(Invoke, s')]
                | (Inr next_node, s') \<Rightarrow>
                    (Invoke, s') #
                    (case routed g next_node of
                       Inl m \<Rightarrow> []
                     | Inr (Some t) \<Rightarrow> completion_trace (Some t) s'
                     | Inr None \<Rightarrow> completion_trace (get_next_node g c s') s'))
           | None \<Rightarrow> completion_trace (get_next_node g c s) s))"

definition loop_body_trace :: "Graph \<Rightarrow> string \<Rightarrow> WorkflowState \<Rightarrow> trace" where
  "loop_body_trace g c s =
     (case map_of (nodes g) c of
        None \<Rightarrow> [(SetError, s\<lparr>error := Some (''Node '' @ c @ '' not found in graph'')\<rparr>)]
      | Some node \<Rightarrow>
          (SetCurrentNode, s\<lparr>current_node := Some c\<rparr>) #
          (AppendLog, enter_node node c s) #
          (case call_func (func node) (enter_node node c s) of
             (Inl m, s1) \<Rightarrow> [(Invoke, s1)]
           | (Inr res, s1) \<Rightarrow>
               (Invoke, s1) #
               (if truthy res then [(AppendLog, record_result node res s1)] else []) @
               route_trace g c node (record_result node res s1)))"

function run_loop_trace ::
  "Graph \<Rightarrow> string set \<Rightarrow> nat \<Rightarrow> string option \<Rightarrow> WorkflowState \<Rightarrow> trace"
where
  "run_loop_trace g visited iteration cur s =
     (case cur of
        None \<Rightarrow> []
      | Some c \<Rightarrow>
          if c \<noteq> [] \<and> iteration < max_iterations then
            loop_body_trace g c s @
            (case loop_body g visited c s of
               BodyContinue visited' nxt s' \<Rightarrow> run_loop_trace g visited' (Suc iteration) nxt s'
             | BodyBreak s' \<Rightarrow> []
             | BodyRaised m s' \<Rightarrow> [])
          else [])"
  by pat_completeness auto
termination
  by (relation "measure (\<lambda>(g, visited, iteration, cur, s). max_iterations - iteration)") auto

declare run_loop_trace.simps [simp del]

definition run_from_trace ::
  "Graph \<Rightarrow> string set \<Rightarrow> nat \<Rightarrow> string option \<Rightarrow> WorkflowState \<Rightarrow> trace" where
  "run_from_trace g visited iteration cur s =
     run_loop_trace g visited iteration cur s @
     (case run_loop g visited iteration cur s of
        (Raised m, it, s') \<Rightarrow>
          [(SetError, s'\<lparr>error := Some m\<rparr>),
           (SetCompleted, s'\<lparr>error := Some m, completed := True\<rparr>),
           (AppendLog, on_exception m s')]
      | (Finished, it, s') \<Rightarrow>
          if it \<ge> max_iterations then
            [(SetError, s'\<lparr>error := Some ''Maximum iterations reached''\<rparr>),
             (SetCompleted, s'\<lparr>error := Some ''Maximum iterations reached'', completed := True\<rparr>)]
          else [])"

definition no_start_trace :: "WorkflowState \<Rightarrow> trace" where
  "no_start_trace s =
     [(SetError, s\<lparr>error := Some ''No start node found''\<rparr>),
      (SetCompleted, s\<lparr>error := Some ''No start node found'', completed := True\<rparr>)]"

definition run_trace :: "Graph \<Rightarrow> string option \<Rightarrow> WorkflowState \<Rightarrow> trace" where
  "run_trace g start_node s =
     (Created, s) #
     (case py_or start_node (get_start_node g) of
        None \<Rightarrow> no_start_trace s
      | Some c \<Rightarrow>
          if c = [] then no_start_trace s
          else (AppendLog, log s ''engine'' (''Starting workflow from node: '' @ c) PyNone) #
               run_from_trace g {} 0 (Some c)
                 (log s ''engine'' (''Starting workflow from node: '' @ c) PyNone))"

text \<open>
  What each kind of entry does to the state before it. A trace is chained from \<open>s\<close> when
  every entry comes from the state of the entry before it (from \<open>s\<close> for the first) by the
  write it names; a call of a callable may change the state in any way.
\<close>

definition write_of :: "action \<Rightarrow> WorkflowState \<Rightarrow> WorkflowState \<Rightarrow> bool" where
  "write_of a s s' =
     (case a of
        Created \<Rightarrow> False
      | SetCurrentNode \<Rightarrow> \<exists>c. s' = s\<lparr>current_node := Some c\<rparr>
      | AppendLog \<Rightarrow> \<exists>e. s' = s\<lparr>execution_log := execution_log s @ [e]\<rparr>
      | Invoke \<Rightarrow> True
      | SetError \<Rightarrow> \<exists>m. s' = s\<lparr>error := Some m\<rparr>
      | SetCompleted \<Rightarrow> s' = s\<lparr>completed := True\<rparr>)"

fun chained :: "WorkflowState \<Rightarrow> trace \<Rightarrow> bool" where
  "chained s [] = True"
| "chained s (e # tr) = (write_of (fst e) s (snd e) \<and> chained (snd e) tr)"

text \<open>
  An entry \<open>e\<close> that comes after the engine has set the completion flag in state \<open>s\<close> is
  settled when it is no call of a callable and no write of the current-node pointer, when
  the data mapping, the pointer and the flag are as in \<open>s\<close>, and when the log is as in \<open>s\<close>
  or is that log followed by the handler's entry for the error of the run. A trace is
  sealed when every entry that sets the flag has the flag set and is followed by settled
  entries only. Nothing is said about the error field.
\<close>

definition settled :: "WorkflowState \<Rightarrow> action \<times> WorkflowState \<Rightarrow> bool" where
  "settled s e =
     (fst e \<noteq> Invoke \<and> fst e \<noteq> SetCurrentNode \<and>
      data (snd e) = data s \<and> current_node (snd e) = current_node s \<and> completed (snd e) \<and>
      (execution_log (snd e) = execution_log s \<or>
       (case error (snd e) of
          None \<Rightarrow> False
        | Some m \<Rightarrow> fst e = AppendLog \<and> execution_log (snd e) = execution_log s @ [error_entry m])))"

fun sealed :: "trace \<Rightarrow> bool" where
  "sealed [] = True"
| "sealed (e # tr) =
     ((fst e = SetCompleted \<longrightarrow> completed (snd e) \<and> list_all (settled (snd e)) tr) \<and> sealed tr)"

text \<open>Auxiliary notions for the proofs about traces.\<close>

fun state_of :: "body_result \<Rightarrow> WorkflowState" where
  "state_of (BodyContinue visited nxt s) = s"
| "state_of (BodyBreak s) = s"
| "state_of (BodyRaised m s) = s"

definition unset :: "trace \<Rightarrow> bool" where
  "unset tr = (\<forall>e \<in> set tr. fst e \<noteq> SetCompleted)"

definition ends_set :: "trace \<Rightarrow> WorkflowState \<Rightarrow> bool" where
  "ends_set tr s = (completed s \<and> (\<exists>pre. tr = pre @ [(SetCompleted, s)] \<and> unset pre))"

definition body_shape :: "body_result \<Rightarrow> trace \<Rightarrow> bool" where
  "body_shape r tr =
     (case r of
        BodyContinue visited nxt s \<Rightarrow> unset tr
      | BodyBreak s \<Rightarrow> unset tr \<or> ends_set tr s
      | BodyRaised m s \<Rightarrow> unset tr)"

definition loop_shape :: "loop_exit \<times> nat \<times> WorkflowState \<Rightarrow> trace \<Rightarrow> bool" where
  "loop_shape r tr =
     (case r of
        (Raised m, it, s) \<Rightarrow> unset tr
      | (Finished, it, s) \<Rightarrow> unset tr \<or> ends_set tr s)"

section \<open>Example graphs\<close>

definition noop :: callable where
  "noop s = (Inr PyNone, s)"

definition always :: "pyval \<Rightarrow> callable" where
  "always v s = (Inr v, s)"

definition failing :: "string \<Rightarrow> callable" where
  "failing m s = (Inl m, s)"

definition step_node :: "string \<Rightarrow> step_ref \<Rightarrow> Node" where
  "step_node k f = \<lparr>ident = k, name = k, func = f, node_type = STANDARD,
     condition_func = None, loop_condition_func = None\<rparr>"

definition loop_node :: "string \<Rightarrow> callable \<Rightarrow> Node" where
  "loop_node k loop_cond = \<lparr>ident = k, name = k, func = Callable noop, node_type = LOOP,
     condition_func = None, loop_condition_func = Some loop_cond\<rparr>"

definition branch_node :: "string \<Rightarrow> callable \<Rightarrow> Node" where
  "branch_node k cond = \<lparr>ident = k, name = k, func = Callable noop, node_type = CONDITIONAL,
     condition_func = Some cond, loop_condition_func = None\<rparr>"

definition engine_with :: "Graph \<Rightarrow> WorkflowEngine" where
  "engine_with g = \<lparr>graphs = [graph_id g \<mapsto> g], runs = Map.empty\<rparr>"

text \<open>Three nodes; only \<open>c\<close> has no incoming edge.\<close>

definition chain_graph :: Graph where
  "chain_graph = \<lparr>graph_id = ''chain'',
     nodes = [(''a'', step_node ''a'' (Callable noop)), (''b'', step_node ''b'' (Callable noop)),
              (''c'', step_node ''c'' (Callable noop))],
     edges = [(''a'', ''b''), (''c'', ''a'')], tool_registry = None\<rparr>"

text \<open>Two standard nodes on a cycle.\<close>

definition ring_graph :: Graph where
  "ring_graph = \<lparr>graph_id = ''ring'',
     nodes = [(''a'', step_node ''a'' (Callable noop)), (''b'', step_node ''b'' (Callable noop))],
     edges = [(''a'', ''b''), (''b'', ''a'')], tool_registry = None\<rparr>"

text \<open>A cycle through a node whose identity is the empty string.\<close>

definition blank_ring :: Graph where
  "blank_ring = \<lparr>graph_id = ''blank'',
     nodes = [(''a'', step_node ''a'' (Callable noop)), ([], step_node [] (Callable noop))],
     edges = [(''a'', []), ([], ''a'')], tool_registry = None\<rparr>"

text \<open>A cycle whose first step raises.\<close>

definition crash_ring :: Graph where
  "crash_ring = \<lparr>graph_id = ''crash_ring'',
     nodes = [(''a'', step_node ''a'' (Callable (failing ''boom''))),
              (''b'', step_node ''b'' (Callable noop))],
     edges = [(''a'', ''b''), (''b'', ''a'')], tool_registry = None\<rparr>"

text \<open>The shape of the repository's code-review workflow: work, then a loop check that
  points back at the work; here the loop condition is false at once.\<close>

definition exit_loop_graph :: Graph where
  "exit_loop_graph = \<lparr>graph_id = ''review'',
     nodes = [(''work'', step_node ''work'' (Callable noop)),
              (''check'', loop_node ''check'' (always (PyBool False)))],
     edges = [(''work'', ''check''), (''check'', ''work'')], tool_registry = None\<rparr>"

text \<open>A node that names a tool, and a registry with no tools.\<close>

definition unresolved_graph :: Graph where
  "unresolved_graph = \<lparr>graph_id = ''unresolved'',
     nodes = [(''fetch'', step_node ''fetch'' (ToolName ''missing''))],
     edges = [], tool_registry = None\<rparr>"

text \<open>A graph with one tool name and one callable, a registry that knows the tool, and the
  graph after resolution.\<close>

definition named_graph :: Graph where
  "named_graph = \<lparr>graph_id = ''named'',
     nodes = [(''a'', step_node ''a'' (ToolName ''tool'')), (''b'', step_node ''b'' (Callable noop))],
     edges = [(''a'', ''b'')], tool_registry = None\<rparr>"

definition tool_box :: ToolRegistry where
  "tool_box = [''tool'' \<mapsto> always (PyInt 1)]"

definition named_graph_resolved :: Graph where
  "named_graph_resolved = \<lparr>graph_id = ''named'',
     nodes = [(''a'', step_node ''a'' (Callable (always (PyInt 1)))),
              (''b'', step_node ''b'' (Callable noop))],
     edges = [(''a'', ''b'')], tool_registry = Some tool_box\<rparr>"

text \<open>The first step returns, the second raises.\<close>

definition crash_graph :: Graph where
  "crash_graph = \<lparr>graph_id = ''crash'',
     nodes = [(''a'', step_node ''a'' (Callable noop)),
              (''b'', step_node ''b'' (Callable (failing ''boom'')))],
     edges = [(''a'', ''b'')], tool_registry = None\<rparr>"

definition crash_at_b :: WorkflowState where
  "crash_at_b =
     enter_node (step_node ''a'' (Callable noop)) ''a''
       (log (new_state Map.empty ''run-1'') ''engine'' ''Starting workflow from node: a'' PyNone)"

definition crash_raised :: WorkflowState where
  "crash_raised = enter_node (step_node ''b'' (Callable (failing ''boom''))) ''b'' crash_at_b"

text \<open>A conditional node \<open>a\<close> whose routing callable returns \<open>v\<close>, with default edge to \<open>b\<close>;
  the graph also has a node \<open>c\<close> and a node whose identity is the empty string.\<close>

definition branch_graph :: "pyval \<Rightarrow> Graph" where
  "branch_graph v = \<lparr>graph_id = ''branch'',
     nodes = [(''a'', branch_node ''a'' (always v)),
              (''b'', step_node ''b'' (Callable noop)),
              (''c'', step_node ''c'' (Callable noop)),
              ([], step_node [] (Callable noop))],
     edges = [(''a'', ''b'')], tool_registry = None\<rparr>"

definition branch_entered :: "pyval \<Rightarrow> WorkflowState" where
  "branch_entered v = enter_node (branch_node ''a'' (always v)) ''a'' (new_state Map.empty ''run-1'')"

text \<open>A graph with one node \<open>a\<close>, named \<open>first\<close>.\<close>

definition first_graph :: Graph where
  "first_graph = add_node (new_graph ''g'') ''a'' ''first'' (Callable noop) STANDARD None None"

section \<open>Evaluating the examples\<close>

lemmas example_defs = noop_def always_def failing_def step_node_def engine_with_def

lemmas engine_defs = run_graph_def resolve_functions_def new_state_def run_resolved_def py_or_def
  get_start_node_def run_from_def loop_body_def route_def enter_node_def record_result_def
  loop_callable_def routing_callable_def check_completion_def get_next_node_def log_def
  after_loop_def on_exception_def max_iterations_def has_node_def stored_def Let_def
  initial_config_def get_run_state_def

lemmas trace_defs = run_trace_def run_from_trace_def loop_body_trace_def route_trace_def
  completion_trace_def no_start_trace_def

section \<open>The loop\<close>

lemma run_loop_None: "run_loop g visited iteration None s = (Finished, iteration, s)"
  by (simp add: run_loop.simps)

lemma run_loop_stop:
  "c = [] \<or> \<not> iteration < max_iterations \<Longrightarrow>
   run_loop g visited iteration (Some c) s = (Finished, iteration, s)"
  by (auto simp: run_loop.simps)

lemma run_loop_continue:
  "c \<noteq> [] \<Longrightarrow> iteration < max_iterations \<Longrightarrow>
   loop_body g visited c s = BodyContinue visited' nxt s' \<Longrightarrow>
   run_loop g visited iteration (Some c) s = run_loop g visited' (Suc iteration) nxt s'"
  by (simp add: run_loop.simps)

lemma run_loop_break:
  "c \<noteq> [] \<Longrightarrow> iteration < max_iterations \<Longrightarrow>
   loop_body g visited c s = BodyBreak s' \<Longrightarrow>
   run_loop g visited iteration (Some c) s = (Finished, Suc iteration, s')"
  by (simp add: run_loop.simps)

lemma run_loop_raised:
  "c \<noteq> [] \<Longrightarrow> iteration < max_iterations \<Longrightarrow>
   loop_body g visited c s = BodyRaised m s' \<Longrightarrow>
   run_loop g visited iteration (Some c) s = (Raised m, Suc iteration, s')"
  by (simp add: run_loop.simps)

text \<open>Passes that came back to the loop test do not change what the loop returns.\<close>

lemma passes_run_loop:
  "passes g n (visited, iteration, cur, s) = Some (visited', iteration', cur', s') \<Longrightarrow>
   run_loop g visited iteration cur s = run_loop g visited' iteration' cur' s'"
proof (induction n arbitrary: visited iteration cur s)
  case 0
  then show ?case by simp
next
  case (Suc n)
  then show ?case
    by (cases cur) (auto simp: run_loop_continue split: if_splits body_result.splits)
qed

lemma run_from_passes:
  "passes g n (visited, iteration, cur, s) = Some (visited', iteration', cur', s') \<Longrightarrow>
   run_from g visited iteration cur s = run_from g visited' iteration' cur' s'"
  by (simp add: run_from_def passes_run_loop)

lemma run_from_raised:
  "c \<noteq> [] \<Longrightarrow> iteration < max_iterations \<Longrightarrow> loop_body g visited c s = BodyRaised m s' \<Longrightarrow>
   run_from g visited iteration (Some c) s = on_exception m s'"
  by (simp add: run_from_def run_loop_raised)

lemma run_from_exhausted:
  "run_from g visited max_iterations cur s =
     s\<lparr>error := Some ''Maximum iterations reached'', completed := True\<rparr>"
  by (cases cur) (simp_all add: run_from_def run_loop_None run_loop_stop after_loop_def)

lemma run_resolved_start:
  "py_or start_node (get_start_node g) = Some c \<Longrightarrow> c \<noteq> [] \<Longrightarrow>
   passes g n (initial_config c s) = Some (visited, iteration, cur, s') \<Longrightarrow>
   run_resolved g start_node s = run_from g visited iteration cur s'"
  by (simp add: run_resolved_def initial_config_def run_from_passes)

lemma run_graph_resolved:
  "graphs eng gid = Some g \<Longrightarrow> resolve_functions reg g = (None, g') \<Longrightarrow>
   run_graph eng gid initial_state start_node reg rid =
     (Inr (run_resolved g' start_node (new_state initial_state rid)),
      stored eng gid g' rid (run_resolved g' start_node (new_state initial_state rid)))"
  by (simp add: run_graph_def Let_def)

lemma has_node_iff: "has_node g k \<longleftrightarrow> k \<in> fst ` set (nodes g)"
  by (simp add: has_node_def map_of_eq_None_iff)

lemma has_node_nonempty: "nonempty_ids g \<Longrightarrow> has_node g t \<Longrightarrow> t \<noteq> []"
  unfolding nonempty_ids_def has_node_iff by blast

lemma has_nodeE:
  assumes "has_node g k"
  obtains node where "map_of (nodes g) k = Some node" "(k, node) \<in> set (nodes g)"
  using assms by (auto simp: has_node_def dest: map_of_SomeD)

section \<open>Loop exit (C1)\<close>

text \<open>
  When the loop-continuation callable of a loop node returns a falsy value, the pass goes
  back to the loop test with no next node, whatever the default edge of the node is; the
  loop ends there, and the run returns the state with the "exiting" entry as its last
  write. The completion check of lines 167-171 is not reached.
\<close>

lemma loop_exit_returns_state_as_is:
  assumes "map_of (nodes g) c = Some node"
    and "node_type node = LOOP" and "loop_condition_func node = Some loop_cond"
    and "call_func (func node) (enter_node node c s) = (Inr res, s1)"
    and "loop_cond (record_result node res s1) = (Inr v, s2)" and "\<not> truthy v"
    and "c \<noteq> []" and "Suc iteration < max_iterations"
  shows "loop_body g visited c s =
           BodyContinue visited None
             (log s2 (ident node) ''Loop condition not met, exiting loop'' PyNone)"
    and "run_from g visited iteration (Some c) s =
           log s2 (ident node) ''Loop condition not met, exiting loop'' PyNone"
proof -
  show body: "loop_body g visited c s =
      BodyContinue visited None
        (log s2 (ident node) ''Loop condition not met, exiting loop'' PyNone)"
    using assms by (simp add: loop_body_def route_def loop_callable_def)
  from assms(7,8) have "iteration < max_iterations" by simp
  from run_loop_continue [OF assms(7) this body] assms(8)
  show "run_from g visited iteration (Some c) s =
      log s2 (ident node) ''Loop condition not met, exiting loop'' PyNone"
    by (simp add: run_from_def run_loop_None after_loop_def)
qed

text \<open>
  C1, at a failing input. The graph has a standard node \<open>work\<close> and a loop node \<open>check\<close>
  whose loop-continuation callable returns \<^verbatim>\<open>False\<close>, with edges \<open>work \<rightarrow> check \<rightarrow> work\<close>.
  The run executes \<open>work\<close> and \<open>check\<close>, logs that the loop is left and does not follow
  the edge back to \<open>work\<close>; but the state it returns has no "Workflow completed" entry
  and its completion flag is still false.
\<close>

theorem loop_exit_leaves_run_incomplete:
  "fst (run_graph (engine_with exit_loop_graph) ''review'' Map.empty None None ''run-1'') =
     Inr \<lparr>data = Map.empty, current_node = Some ''check'',
          execution_log =
            [\<lparr>node_id = ''engine'', message = ''Starting workflow from node: work'', result = PyNone\<rparr>,
             \<lparr>node_id = ''work'', message = ''Executing node: work'', result = PyNone\<rparr>,
             \<lparr>node_id = ''check'', message = ''Executing node: check'', result = PyNone\<rparr>,
             \<lparr>node_id = ''check'', message = ''Loop condition not met, exiting loop'', result = PyNone\<rparr>],
          run_id = ''run-1'', completed = False, error = None\<rparr>"
  by (simp add: exit_loop_graph_def loop_node_def example_defs engine_defs run_loop.simps)

section \<open>Unresolved step references (C2)\<close>

lemma resolve_nodes_missing:
  "(k, node) \<in> set ns \<Longrightarrow> func node = ToolName t \<Longrightarrow> \<not> registered reg t \<Longrightarrow>
   \<exists>e. fst (resolve_nodes reg ns) = Some e"
proof (induction ns)
  case Nil
  then show ?case by simp
next
  case (Cons p ns)
  obtain k' node' where p: "p = (k', node')" by (cases p)
  show ?case
  proof (cases "p = (k, node)")
    case True
    with Cons.prems p show ?thesis
      by (auto simp: registered_def has_tool_def split: option.splits)
  next
    case False
    with Cons have "\<exists>e. fst (resolve_nodes reg ns) = Some e" by simp
    then show ?thesis unfolding p
      by (auto split: step_ref.splits option.splits sum.splits prod.splits)
  qed
qed

lemma resolve_nodes_failure:
  "fst (resolve_nodes reg ns) = Some e \<Longrightarrow> list_ex (\<lambda>(k, node). unresolvable reg node e) ns"
proof (induction ns)
  case Nil
  then show ?case by simp
next
  case (Cons p ns)
  obtain k node where p: "p = (k, node)" by (cases p)
  show ?case
  proof (cases "func node")
    case (ToolName t)
    show ?thesis
    proof (cases "registered reg t")
      case True
      then obtain r f where "reg = Some r" "r t = Some f"
        by (auto simp: registered_def has_tool_def split: option.splits)
      with Cons ToolName show ?thesis unfolding p
        by (auto simp: has_tool_def get_tool_def split: prod.splits)
    next
      case False
      with Cons.prems ToolName have "e = tool_not_found t" unfolding p
        by (auto simp: registered_def tool_not_found_def split: option.splits if_splits)
      with False ToolName show ?thesis unfolding p by (simp add: unresolvable_def)
    qed
  next
    case (Callable f)
    with Cons show ?thesis unfolding p by (auto split: prod.splits)
  next
    case (NotCallable ty)
    with Cons.prems show ?thesis unfolding p
      by (simp add: unresolvable_def invalid_function_def)
  qed
qed

text \<open>
  C2, as the code has it. When a node of the graph names a tool that the registry does not
  have, \<open>run_graph\<close> raises: it returns no state but the error of the resolution, which is
  the error of a node that cannot be resolved (\<^verbatim>\<open>Tool '...' not found in registry\<close> for a
  missing tool). The state created for the run is in the run registry under the run
  identity, as it was created.
\<close>

theorem unresolved_step_raises:
  assumes "graphs eng gid = Some g"
    and "(k, node) \<in> set (nodes g)" and "func node = ToolName t" and "\<not> registered reg t"
  shows "\<exists>e. fst (run_graph eng gid initial_state start_node reg rid) = Inl e \<and>
           resolution_failure reg g e \<and>
           get_run_state (snd (run_graph eng gid initial_state start_node reg rid)) rid
             = Some (new_state initial_state rid)"
proof -
  from resolve_nodes_missing [OF assms(2,3,4)]
  obtain e where e: "fst (resolve_nodes reg (nodes g)) = Some e" by blast
  then have "resolution_failure reg g e"
    unfolding resolution_failure_def by (rule resolve_nodes_failure)
  moreover from e have "\<exists>g'. resolve_functions reg g = (Some e, g')"
    by (cases "resolve_nodes reg (nodes g)") (simp add: resolve_functions_def)
  ultimately show ?thesis using assms(1)
    by (auto simp: run_graph_def Let_def get_run_state_def stored_def)
qed

text \<open>The theorem at the graph with the one node \<open>fetch\<close> and the empty registry.\<close>

theorem unresolved_step_raises_witness:
  "graphs (engine_with unresolved_graph) ''unresolved'' = Some unresolved_graph \<and>
   (''fetch'', step_node ''fetch'' (ToolName ''missing'')) \<in> set (nodes unresolved_graph) \<and>
   \<not> registered (Some Map.empty) ''missing'' \<and>
   (\<exists>e. fst (run_graph (engine_with unresolved_graph) ''unresolved'' Map.empty None
              (Some Map.empty) ''run-1'') = Inl e \<and>
        resolution_failure (Some Map.empty) unresolved_graph e \<and>
        get_run_state (snd (run_graph (engine_with unresolved_graph) ''unresolved'' Map.empty None
              (Some Map.empty) ''run-1'')) ''run-1''
          = Some (new_state Map.empty ''run-1''))"
proof -
  have h1: "graphs (engine_with unresolved_graph) ''unresolved'' = Some unresolved_graph"
    by (simp add: engine_with_def unresolved_graph_def)
  have h2: "(''fetch'', step_node ''fetch'' (ToolName ''missing'')) \<in> set (nodes unresolved_graph)"
    by (simp add: unresolved_graph_def)
  have h3: "func (step_node ''fetch'' (ToolName ''missing'')) = ToolName ''missing''"
    by (simp add: step_node_def)
  have h4: "\<not> registered (Some Map.empty) ''missing''"
    by (simp add: registered_def has_tool_def)
  from unresolved_step_raises [OF h1 h2 h3 h4, of Map.empty None "''run-1''"]
  show ?thesis using h1 h2 h4 by simp
qed

text \<open>
  C2 as stated fails at that input: the call raises the \<^verbatim>\<open>ValueError\<close> of the resolution
  instead of returning a state, and the state in the run registry is neither completed nor
  carries an error.
\<close>

theorem unresolved_step_escapes_engine:
  "fst (run_graph (engine_with unresolved_graph) ''unresolved'' Map.empty None
         (Some Map.empty) ''run-1'') = Inl (tool_not_found ''missing'') \<and>
   map_option completed
     (get_run_state (snd (run_graph (engine_with unresolved_graph) ''unresolved'' Map.empty None
         (Some Map.empty) ''run-1'')) ''run-1'') = Some False \<and>
   map_option error
     (get_run_state (snd (run_graph (engine_with unresolved_graph) ''unresolved'' Map.empty None
         (Some Map.empty) ''run-1'')) ''run-1'') = Some None"
  by (simp add: unresolved_graph_def tool_not_found_def has_tool_def example_defs engine_defs)

section \<open>Writes after the completion flag (C3)\<close>

lemma unset_simps [simp]:
  "unset []" "unset (e # tr) \<longleftrightarrow> fst e \<noteq> SetCompleted \<and> unset tr"
  "unset (tr @ tr') \<longleftrightarrow> unset tr \<and> unset tr'"
  by (auto simp: unset_def)

lemma ends_set_prepend: "unset pre \<Longrightarrow> ends_set tr s \<Longrightarrow> ends_set (pre @ tr) s"
  unfolding ends_set_def by (metis append.assoc unset_simps(3))

lemma ends_set_Cons: "fst e \<noteq> SetCompleted \<Longrightarrow> ends_set tr s \<Longrightarrow> ends_set (e # tr) s"
  using ends_set_prepend [of "[e]" tr s] by simp

text \<open>In one pass the flag is set by the completion check only, as the last write.\<close>

lemma completion_trace_shape:
  "case check_completion node visited nxt s of
     BodyContinue visited' nxt' s' \<Rightarrow> completion_trace nxt s = [] \<and> s' = s
   | BodyBreak s' \<Rightarrow> ends_set (completion_trace nxt s) s'
   | BodyRaised m s' \<Rightarrow> False"
  by (cases nxt) (auto simp: check_completion_def completion_trace_def ends_set_def
      intro: exI [of _ "[(AppendLog, log s ''engine'' ''Workflow completed'' PyNone)]"])

lemma completion_trace_body_shape:
  "body_shape (check_completion node visited nxt s) (completion_trace nxt s)"
  using completion_trace_shape [where node = node and visited = visited and nxt = nxt and s = s]
  by (auto simp: body_shape_def split: body_result.splits)

lemma completion_trace_last:
  "snd (last (e # completion_trace nxt s)) = state_of (check_completion node visited nxt s)
   \<or> (completion_trace nxt s = [] \<and> state_of (check_completion node visited nxt s) = s)"
  by (cases nxt) (auto simp: check_completion_def completion_trace_def)

lemma route_body_shape: "body_shape (route g visited c node s) (route_trace g c node s)"
proof (cases "loop_callable node")
  case (Some loop_cond)
  then show ?thesis
    by (cases "loop_cond s") (auto simp: route_def route_trace_def body_shape_def split: sum.splits)
next
  case None
  note lc = this
  show ?thesis
  proof (cases "routing_callable node")
    case None
    with lc show ?thesis
      by (simp add: route_def route_trace_def completion_trace_body_shape)
  next
    case (Some cond)
    obtain r s' where call: "cond s = (r, s')" by (cases "cond s")
    show ?thesis
    proof (cases r)
      case (Inl m)
      with lc Some call show ?thesis
        by (simp add: route_def route_trace_def body_shape_def)
    next
      case (Inr v)
      have *: "body_shape r tr \<Longrightarrow> body_shape r ((Invoke, s') # tr)" for r tr
        by (auto simp: body_shape_def ends_set_Cons split: body_result.splits)
      show ?thesis
      proof (cases "routed g v")
        case (Inl m)
        with lc Some call Inr show ?thesis
          by (simp add: route_def route_trace_def body_shape_def)
      next
        case (Inr nxt)
        with lc Some call \<open>r = Inr v\<close> show ?thesis
          by (cases nxt) (simp_all add: route_def route_trace_def * completion_trace_body_shape)
      qed
    qed
  qed
qed

lemma route_trace_last:
  "snd (last ((a, s) # route_trace g c node s)) = state_of (route g visited c node s)"
proof (cases "loop_callable node")
  case (Some loop_cond)
  then show ?thesis
    by (cases "loop_cond s") (auto simp: route_def route_trace_def split: sum.splits)
next
  case None
  note lc = this
  show ?thesis
  proof (cases "routing_callable node")
    case None
    with lc show ?thesis
      using completion_trace_last [where e = "(a, s)" and nxt = "get_next_node g c s" and s = s
          and node = node and visited = visited]
      by (auto simp: route_def route_trace_def)
  next
    case (Some cond)
    obtain r s' where call: "cond s = (r, s')" by (cases "cond s")
    show ?thesis
    proof (cases r)
      case (Inl m)
      with lc Some call show ?thesis
        by (simp add: route_def route_trace_def)
    next
      case (Inr v)
      show ?thesis
      proof (cases "routed g v")
        case (Inl m)
        with lc Some call Inr show ?thesis
          by (simp add: route_def route_trace_def)
      next
        case (Inr nxt)
        with lc Some call \<open>r = Inr v\<close> show ?thesis
          using completion_trace_last [where e = "(Invoke, s')" and nxt = "get_next_node g c s'"
              and s = s' and node = node and visited = visited]
            completion_trace_last [where e = "(Invoke, s')" and nxt = nxt
              and s = s' and node = node and visited = visited]
          by (cases nxt) (auto simp: route_def route_trace_def)
      qed
    qed
  qed
qed

lemma loop_body_shape: "body_shape (loop_body g visited c s) (loop_body_trace g c s)"
proof (cases "map_of (nodes g) c")
  case None
  then show ?thesis by (simp add: loop_body_def loop_body_trace_def body_shape_def)
next
  case (Some node)
  obtain r s1 where call: "call_func (func node) (enter_node node c s) = (r, s1)"
    by (cases "call_func (func node) (enter_node node c s)")
  have *: "unset pre \<Longrightarrow> body_shape r tr \<Longrightarrow> body_shape r (pre @ tr)" for r pre tr
    by (auto simp: body_shape_def ends_set_prepend split: body_result.splits)
  show ?thesis
  proof (cases r)
    case (Inl m)
    with Some call show ?thesis by (simp add: loop_body_def loop_body_trace_def body_shape_def)
  next
    case (Inr res)
    let ?pre = "[(SetCurrentNode, s\<lparr>current_node := Some c\<rparr>), (AppendLog, enter_node node c s),
      (Invoke, s1)] @ (if truthy res then [(AppendLog, record_result node res s1)] else [])"
    have "body_shape (route g visited c node (record_result node res s1))
        (?pre @ route_trace g c node (record_result node res s1))"
      by (rule *) (simp_all add: route_body_shape)
    with Some call Inr show ?thesis by (simp add: loop_body_def loop_body_trace_def)
  qed
qed

lemma loop_body_trace_last:
  "loop_body_trace g c s \<noteq> [] \<and>
   snd (last (loop_body_trace g c s)) = state_of (loop_body g visited c s)"
proof (cases "map_of (nodes g) c")
  case None
  then show ?thesis by (simp add: loop_body_def loop_body_trace_def)
next
  case (Some node)
  obtain r s1 where call: "call_func (func node) (enter_node node c s) = (r, s1)"
    by (cases "call_func (func node) (enter_node node c s)")
  show ?thesis
  proof (cases r)
    case (Inl m)
    with Some call show ?thesis by (simp add: loop_body_def loop_body_trace_def)
  next
    case (Inr res)
    show ?thesis
      using Some call Inr
        route_trace_last [where a = AppendLog and s = "record_result node res s1" and g = g
          and c = c and node = node and visited = visited]
        route_trace_last [where a = Invoke and s = "record_result node res s1" and g = g
          and c = c and node = node and visited = visited]
      by (auto simp: loop_body_def loop_body_trace_def record_result_def)
  qed
qed

text \<open>In the whole loop the flag is set at most once, by the pass that breaks.\<close>

lemma loop_shape_prepend: "unset pre \<Longrightarrow> loop_shape r tr \<Longrightarrow> loop_shape r (pre @ tr)"
  by (auto simp: loop_shape_def ends_set_prepend split: prod.splits loop_exit.splits)

lemma run_loop_shape:
  "loop_shape (run_loop g visited iteration cur s) (run_loop_trace g visited iteration cur s)"
proof (induction g visited iteration cur s rule: run_loop.induct)
  case (1 g visited iteration cur s)
  show ?case
  proof (cases cur)
    case None
    then show ?thesis by (simp add: run_loop_None run_loop_trace.simps loop_shape_def)
  next
    case (Some c)
    show ?thesis
    proof (cases "c \<noteq> [] \<and> iteration < max_iterations")
      case False
      with Some show ?thesis
        by (auto simp: run_loop_stop run_loop_trace.simps loop_shape_def)
    next
      case True
      note shape = loop_body_shape [of g visited c s]
      show ?thesis
      proof (cases "loop_body g visited c s")
        case (BodyContinue visited' nxt s')
        with shape have "unset (loop_body_trace g c s)" by (simp add: body_shape_def)
        moreover have "loop_shape (run_loop g visited' (Suc iteration) nxt s')
            (run_loop_trace g visited' (Suc iteration) nxt s')"
          using "1.IH" Some True BodyContinue by simp
        ultimately show ?thesis using Some True BodyContinue
          by (simp add: run_loop_continue run_loop_trace.simps [of g visited iteration]
              loop_shape_prepend)
      next
        case (BodyBreak s')
        with shape Some True show ?thesis
          by (simp add: run_loop_break run_loop_trace.simps [of g visited iteration]
              body_shape_def loop_shape_def)
      next
        case (BodyRaised m s')
        with shape Some True show ?thesis
          by (simp add: run_loop_raised run_loop_trace.simps [of g visited iteration]
              body_shape_def loop_shape_def)
      qed
    qed
  qed
qed

lemma run_loop_trace_last:
  "snd (last ((a, s) # run_loop_trace g visited iteration cur s)) =
     snd (snd (run_loop g visited iteration cur s))"
proof (induction g visited iteration cur s arbitrary: a rule: run_loop.induct)
  case (1 g visited iteration cur s)
  show ?case
  proof (cases cur)
    case None
    then show ?thesis by (simp add: run_loop_None run_loop_trace.simps)
  next
    case (Some c)
    show ?thesis
    proof (cases "c \<noteq> [] \<and> iteration < max_iterations")
      case False
      with Some show ?thesis by (auto simp: run_loop_stop run_loop_trace.simps)
    next
      case True
      note l = loop_body_trace_last [of g c s visited]
      show ?thesis
      proof (cases "loop_body g visited c s")
        case (BodyContinue visited' nxt s')
        from l obtain pre a' where pre: "loop_body_trace g c s = pre @ [(a', s')]"
          using BodyContinue
          by (metis append_butlast_last_id prod.collapse state_of.simps(1))
        have "snd (last ((a', s') # run_loop_trace g visited' (Suc iteration) nxt s')) =
            snd (snd (run_loop g visited' (Suc iteration) nxt s'))"
          using "1.IH" Some True BodyContinue by simp
        then show ?thesis using Some True BodyContinue pre
          by (simp add: run_loop_continue run_loop_trace.simps [of g visited iteration])
      next
        case (BodyBreak s')
        with l Some True show ?thesis
          by (simp add: run_loop_break run_loop_trace.simps [of g visited iteration])
      next
        case (BodyRaised m s')
        with l Some True show ?thesis
          by (simp add: run_loop_raised run_loop_trace.simps [of g visited iteration])
      qed
    qed
  qed
qed

lemma sealed_unset: "unset tr \<Longrightarrow> sealed tr"
  by (induction tr) auto

lemma sealed_prepend: "unset pre \<Longrightarrow> sealed (pre @ tr) = sealed tr"
  by (induction pre) auto

lemma sealed_ends_set:
  "ends_set tr s \<Longrightarrow> sealed (tr @ rest) = (list_all (settled s) rest \<and> sealed rest)"
  by (auto simp: ends_set_def sealed_prepend)

lemma sealed_run_from: "sealed (run_from_trace g visited iteration cur s)"
proof -
  obtain x it s' where r: "run_loop g visited iteration cur s = (x, it, s')"
    by (cases "run_loop g visited iteration cur s")
  note shape = run_loop_shape [of g visited iteration cur s]
  show ?thesis
  proof (cases x)
    case (Raised m)
    with shape r have "unset (run_loop_trace g visited iteration cur s)"
      by (simp add: loop_shape_def)
    with r Raised show ?thesis
      by (simp add: run_from_trace_def sealed_prepend settled_def on_exception_def log_def
          error_entry_def)
  next
    case Finished
    with shape r consider "unset (run_loop_trace g visited iteration cur s)"
      | "ends_set (run_loop_trace g visited iteration cur s) s'"
      by (auto simp: loop_shape_def)
    then show ?thesis
    proof cases
      case 1
      with r Finished show ?thesis
        by (simp add: run_from_trace_def sealed_prepend sealed_unset)
    next
      case 2
      then have "completed s'" by (simp add: ends_set_def)
      with 2 r Finished show ?thesis
        by (simp add: run_from_trace_def sealed_ends_set settled_def)
    qed
  qed
qed

lemma sealed_run_trace: "sealed (run_trace g start_node s)"
  by (simp add: run_trace_def no_start_trace_def sealed_run_from split: option.splits)

lemma run_from_trace_last:
  "snd (last ((a, s) # run_from_trace g visited iteration cur s)) =
     run_from g visited iteration cur s"
proof -
  obtain x it s' where r: "run_loop g visited iteration cur s = (x, it, s')"
    by (cases "run_loop g visited iteration cur s")
  with run_loop_trace_last [of a s g visited iteration cur] show ?thesis
    by (cases x) (auto simp: run_from_trace_def run_from_def after_loop_def)
qed

lemma run_trace_last: "snd (last (run_trace g start_node s)) = run_resolved g start_node s"
  using run_from_trace_last [where a = AppendLog and g = g and visited = "{}" and iteration = 0]
  by (auto simp: run_trace_def run_resolved_def no_start_trace_def split: option.splits)

text \<open>The entries of a trace are consecutive writes.\<close>

lemma chained_append:
  "chained s (xs @ ys) = (chained s xs \<and> chained (snd (last ((a, s) # xs))) ys)"
  by (induction xs arbitrary: s a) auto

lemma write_of_simps [simp]:
  "write_of AppendLog s (log s nid msg res)"
  "write_of Invoke s s'"
  "write_of SetCurrentNode s (s\<lparr>current_node := Some c\<rparr>)"
  "write_of SetError s (s\<lparr>error := Some m\<rparr>)"
  "write_of SetCompleted s (s\<lparr>completed := True\<rparr>)"
  by (auto simp: write_of_def log_def)

lemma chained_completion: "chained s (completion_trace nxt s)"
  by (simp add: completion_trace_def)

lemma chained_route: "chained s (route_trace g c node s)"
  by (auto simp: route_trace_def chained_completion
      split: option.splits prod.splits sum.splits)

lemma chained_loop_body: "chained s (loop_body_trace g c s)"
proof (cases "map_of (nodes g) c")
  case None
  then show ?thesis by (auto simp: loop_body_trace_def)
next
  case (Some node)
  have e: "write_of AppendLog (s\<lparr>current_node := Some c\<rparr>) (enter_node node c s)"
    by (simp add: enter_node_def)
  have r: "truthy res \<Longrightarrow> write_of AppendLog s1 (record_result node res s1)" for res s1
    by (simp add: record_result_def)
  have n: "\<not> truthy res \<Longrightarrow> record_result node res s1 = s1" for res s1
    by (simp add: record_result_def)
  show ?thesis
    using Some e r chained_route [of _ g c node]
    by (auto simp: loop_body_trace_def n split: prod.splits sum.splits)
qed

lemma chained_run_loop: "chained s (run_loop_trace g visited iteration cur s)"
proof (induction g visited iteration cur s rule: run_loop.induct)
  case (1 g visited iteration cur s)
  show ?case
  proof (cases cur)
    case None
    then show ?thesis by (simp add: run_loop_trace.simps)
  next
    case (Some c)
    show ?thesis
    proof (cases "c \<noteq> [] \<and> iteration < max_iterations")
      case False
      with Some show ?thesis by (auto simp: run_loop_trace.simps)
    next
      case True
      note l = loop_body_trace_last [of g c s visited]
      note b = chained_loop_body [of s g c]
      show ?thesis
      proof (cases "loop_body g visited c s")
        case (BodyContinue visited' nxt s')
        have "chained s' (run_loop_trace g visited' (Suc iteration) nxt s')"
          using "1.IH" Some True BodyContinue by simp
        moreover have "snd (last ((Created, s) # loop_body_trace g c s)) = s'"
          using l BodyContinue by simp
        ultimately show ?thesis using Some True BodyContinue b
          by (simp add: run_loop_trace.simps [of g visited iteration]
              chained_append [where a = Created])
      next
        case (BodyBreak s')
        with b Some True show ?thesis
          by (simp add: run_loop_trace.simps [of g visited iteration])
      next
        case (BodyRaised m s')
        with b Some True show ?thesis
          by (simp add: run_loop_trace.simps [of g visited iteration])
      qed
    qed
  qed
qed

lemma chained_run_from: "chained s (run_from_trace g visited iteration cur s)"
proof -
  obtain x it s' where r: "run_loop g visited iteration cur s = (x, it, s')"
    by (cases "run_loop g visited iteration cur s")
  with run_loop_trace_last [of Created s g visited iteration cur]
  have "snd (last ((Created, s) # run_loop_trace g visited iteration cur s)) = s'" by simp
  with r chained_run_loop [of s g visited iteration cur] show ?thesis
    by (cases x) (auto simp: run_from_trace_def chained_append [where a = Created]
        on_exception_def)
qed

lemma run_trace_chained: "chained s (tl (run_trace g start_node s))"
  by (auto simp: run_trace_def no_start_trace_def chained_run_from split: option.splits)

lemma run_trace_first: "hd (run_trace g start_node s) = (Created, s)"
  by (simp add: run_trace_def)

text \<open>
  The error field is another matter. When the pass that ends the loop by a \<^verbatim>\<open>break\<close> (the
  completion check has set the flag, or the node was not found) is the last one that the
  cap allows, lines 178-180 still set the error to \<^verbatim>\<open>Maximum iterations reached\<close>.
\<close>

lemma cap_error_after_break:
  "c \<noteq> [] \<Longrightarrow> Suc iteration = max_iterations \<Longrightarrow> loop_body g visited c s = BodyBreak s' \<Longrightarrow>
   run_from g visited iteration (Some c) s =
     s'\<lparr>error := Some ''Maximum iterations reached'', completed := True\<rparr>"
  by (simp add: run_from_def run_loop_break after_loop_def)

text \<open>
  C3, as the code has it. Take any run that gets past the resolution of the step
  references, and the list of its writes: it begins with the state as created, every
  entry comes from the one before it by the write it names, and it ends in the state that
  \<open>run_graph\<close> returns. From every write that sets the completion flag onwards the engine
  calls no callable and
  leaves the data mapping, the current-node pointer and the flag as they are; the
  execution log stays as it is too, except that the exception handler appends its
  \<^verbatim>\<open>Error: ...\<close> entry after it has set the flag.
\<close>

theorem completion_seals_state:
  assumes "graphs eng gid = Some g" and "resolve_functions reg g = (None, g')"
  shows "hd (run_trace g' start_node (new_state initial_state rid))
           = (Created, new_state initial_state rid) \<and>
         chained (new_state initial_state rid)
           (tl (run_trace g' start_node (new_state initial_state rid))) \<and>
         fst (run_graph eng gid initial_state start_node reg rid) =
           Inr (snd (last (run_trace g' start_node (new_state initial_state rid)))) \<and>
         sealed (run_trace g' start_node (new_state initial_state rid))"
  by (simp add: sealed_run_trace run_trace_last run_trace_chained run_trace_first
      run_graph_resolved [OF assms])

text \<open>The theorem at the run of the graph whose second step raises; the flag is set by the
  tenth write of that run.\<close>

theorem completion_seals_state_witness:
  "graphs (engine_with crash_graph) ''crash'' = Some crash_graph \<and>
   resolve_functions None crash_graph = (None, crash_graph) \<and>
   map fst (run_trace crash_graph None (new_state Map.empty ''run-1'')) =
     [Created, AppendLog, SetCurrentNode, AppendLog, Invoke, SetCurrentNode, AppendLog, Invoke,
      SetError, SetCompleted, AppendLog] \<and>
   chained (new_state Map.empty ''run-1'')
     (tl (run_trace crash_graph None (new_state Map.empty ''run-1''))) \<and>
   fst (run_graph (engine_with crash_graph) ''crash'' Map.empty None None ''run-1'') =
     Inr (snd (last (run_trace crash_graph None (new_state Map.empty ''run-1'')))) \<and>
   sealed (run_trace crash_graph None (new_state Map.empty ''run-1''))"
proof -
  have h1: "graphs (engine_with crash_graph) ''crash'' = Some crash_graph"
    by (simp add: engine_with_def crash_graph_def)
  have h2: "resolve_functions None crash_graph = (None, crash_graph)"
    by (simp add: resolve_functions_def crash_graph_def step_node_def)
  have h3: "map fst (run_trace crash_graph None (new_state Map.empty ''run-1'')) =
     [Created, AppendLog, SetCurrentNode, AppendLog, Invoke, SetCurrentNode, AppendLog, Invoke,
      SetError, SetCompleted, AppendLog]"
    by (simp add: crash_graph_def example_defs engine_defs trace_defs run_loop.simps
        run_loop_trace.simps)
  from completion_seals_state [OF h1 h2, of None Map.empty "''run-1''"]
  show ?thesis using h1 h2 h3 by simp
qed

text \<open>
  C3 as stated fails at that run: its tenth write sets the completion flag, in a state
  whose log has three entries, and the next write appends a fourth entry; the state after
  that write is the one \<open>run_graph\<close> returns.
\<close>

theorem error_entry_logged_after_completion:
  "fst (run_trace crash_graph None (new_state Map.empty ''run-1'') ! 9) = SetCompleted \<and>
   completed (snd (run_trace crash_graph None (new_state Map.empty ''run-1'') ! 9)) \<and>
   length (execution_log (snd (run_trace crash_graph None (new_state Map.empty ''run-1'') ! 9))) = 3 \<and>
   fst (run_trace crash_graph None (new_state Map.empty ''run-1'') ! 10) = AppendLog \<and>
   length (execution_log (snd (run_trace crash_graph None (new_state Map.empty ''run-1'') ! 10))) = 4 \<and>
   fst (run_graph (engine_with crash_graph) ''crash'' Map.empty None None ''run-1'') =
     Inr (snd (run_trace crash_graph None (new_state Map.empty ''run-1'') ! 10))"
  by (simp add: crash_graph_def example_defs engine_defs trace_defs run_loop.simps
      run_loop_trace.simps)

section \<open>Adding a node twice (C4)\<close>

text \<open>
  C4, as the code has it. \<open>add_node\<close> cannot fail. When the identity is already in the
  graph, the node stored under it is replaced by the new one; the other nodes, the
  declaration order and the edges stay as they are.
\<close>

theorem add_node_replaces:
  assumes "has_node g k"
  shows "map_of (nodes (add_node g k nm f ty cond loop_cond)) k =
           Some \<lparr>ident = k, name = nm, func = f, node_type = ty,
                 condition_func = cond, loop_condition_func = loop_cond\<rparr> \<and>
         (\<forall>k'. k' \<noteq> k \<longrightarrow>
            map_of (nodes (add_node g k nm f ty cond loop_cond)) k' = map_of (nodes g) k') \<and>
         declared (add_node g k nm f ty cond loop_cond) = declared g \<and>
         edges (add_node g k nm f ty cond loop_cond) = edges g"
proof -
  from assms have "k \<in> set (map fst (nodes g))"
    by (simp add: has_node_iff)
  then have "declared (add_node g k nm f ty cond loop_cond) = declared g"
    by (simp add: declared_def add_node_def update_keys)
  then show ?thesis
    by (simp add: add_node_def update_conv')
qed

text \<open>The theorem at the graph with the node \<open>a\<close>, to which \<open>a\<close> is added again as a loop
  node named \<open>second\<close>.\<close>

theorem add_node_replaces_witness:
  "has_node first_graph ''a'' \<and>
   map_of (nodes (add_node first_graph ''a'' ''second'' (ToolName ''t'') LOOP None None)) ''a'' =
     Some \<lparr>ident = ''a'', name = ''second'', func = ToolName ''t'', node_type = LOOP,
           condition_func = None, loop_condition_func = None\<rparr> \<and>
   declared (add_node first_graph ''a'' ''second'' (ToolName ''t'') LOOP None None) = [''a'']"
proof -
  have h: "has_node first_graph ''a''"
    by (simp add: first_graph_def add_node_def new_graph_def has_node_def)
  have d: "declared first_graph = [''a'']"
    by (simp add: first_graph_def add_node_def new_graph_def declared_def)
  from add_node_replaces [OF h, of "''second''" "ToolName ''t''" LOOP None None]
  show ?thesis using h d by simp
qed

text \<open>
  C4 as stated fails at that input: the second \<open>add_node\<close> for \<open>a\<close> returns a graph, and in
  it the node \<open>a\<close> is the new one, named \<open>second\<close>, not the one named \<open>first\<close>.
\<close>

theorem add_node_overwrites:
  "has_node first_graph ''a'' \<and>
   map_option name (map_of (nodes first_graph) ''a'') = Some ''first'' \<and>
   map_option name
     (map_of (nodes (add_node first_graph ''a'' ''second'' (ToolName ''t'') LOOP None None)) ''a'')
     = Some ''second''"
  by (simp add: first_graph_def add_node_def new_graph_def has_node_def)

section \<open>Cycles of standard nodes (C5)\<close>

lemma standard_pass:
  assumes std: "all_standard g" and ret: "steps_return g" and suc: "every_node_has_successor g"
    and ids: "nonempty_ids g" and c: "has_node g c"
  shows "\<exists>visited' t s'. loop_body g visited c s = BodyContinue visited' (Some t) s' \<and> has_node g t"
proof -
  from c obtain node where node: "map_of (nodes g) c = Some node" "(c, node) \<in> set (nodes g)"
    by (rule has_nodeE)
  from std node have ty: "node_type node = STANDARD" by (auto simp: all_standard_def)
  from ret node obtain f where f: "func node = Callable f" "returns_normally f"
    by (auto simp: steps_return_def)
  from f obtain res s1 where call: "f (enter_node node c s) = (Inr res, s1)"
    unfolding returns_normally_def by blast
  from suc c obtain t where t: "map_of (edges g) c = Some t" "has_node g t"
    by (auto simp: every_node_has_successor_def has_node_iff)
  with ids have "t \<noteq> []" by (blast dest: has_node_nonempty)
  with node ty f call t show ?thesis
    by (simp add: loop_body_def route_def loop_callable_def routing_callable_def
        check_completion_def get_next_node_def)
qed

lemma standard_passes:
  assumes std: "all_standard g" and ret: "steps_return g" and suc: "every_node_has_successor g"
    and ids: "nonempty_ids g"
  shows "has_node g c \<Longrightarrow> iteration + n \<le> max_iterations \<Longrightarrow>
    \<exists>visited' t s'. passes g n (visited, iteration, Some c, s) = Some (visited', iteration + n, Some t, s')
       \<and> has_node g t"
proof (induction n arbitrary: visited iteration c s)
  case 0
  then show ?case by simp
next
  case (Suc n)
  from standard_pass [OF std ret suc ids Suc.prems(1)]
  obtain visited1 t1 s1 where body: "loop_body g visited c s = BodyContinue visited1 (Some t1) s1"
    and t1: "has_node g t1" by blast
  from Suc.prems have "Suc iteration + n \<le> max_iterations" by simp
  from Suc.IH [OF t1 this, of visited1 s1]
  obtain visited' t s' where
    "passes g n (visited1, Suc iteration, Some t1, s1) = Some (visited', Suc iteration + n, Some t, s')"
    "has_node g t" by blast
  moreover from Suc.prems ids have "c \<noteq> []" "iteration < max_iterations"
    by (auto dest: has_node_nonempty)
  ultimately show ?case using body by simp
qed

text \<open>
  C5, as the code has it. Let every node of the (resolved) graph be a standard node whose
  step callable returns without raising, let every node have a default edge to a node of
  the graph, let no node identity be the empty string, and let the run start at a node of
  the graph. Then the loop makes exactly \<open>max_iterations = 1000\<close> passes, each of which comes
  back to the loop test, and \<open>run_graph\<close> returns the state after the last pass, marked
  completed with error \<^verbatim>\<open>Maximum iterations reached\<close>.
\<close>

theorem unbroken_cycle_hits_cap:
  assumes "graphs eng gid = Some g"
    and "resolve_functions reg g = (None, g')"
    and "all_standard g'" and "steps_return g'"
    and "every_node_has_successor g'" and "nonempty_ids g'"
    and "py_or start_node (get_start_node g') = Some c" and "has_node g' c"
  shows "\<exists>visited cur s'.
      passes g' max_iterations (initial_config c (new_state initial_state rid))
        = Some (visited, max_iterations, cur, s') \<and>
      fst (run_graph eng gid initial_state start_node reg rid)
        = Inr (s'\<lparr>error := Some ''Maximum iterations reached'', completed := True\<rparr>)"
proof -
  from assms(6,8) have c: "c \<noteq> []" by (rule has_node_nonempty)
  from standard_passes [OF assms(3-6) assms(8), of 0 max_iterations]
  obtain visited t s' where
    p: "passes g' max_iterations (initial_config c (new_state initial_state rid))
          = Some (visited, max_iterations, Some t, s')"
    unfolding initial_config_def by fastforce
  from run_resolved_start [OF assms(7) c p]
  have "run_resolved g' start_node (new_state initial_state rid) =
      s'\<lparr>error := Some ''Maximum iterations reached'', completed := True\<rparr>"
    by (simp add: run_from_exhausted)
  with p show ?thesis
    by (simp add: run_graph_resolved [OF assms(1,2)])
qed

text \<open>The theorem at the cycle \<open>a \<rightarrow> b \<rightarrow> a\<close> of two standard nodes, with the start node
  inferred.\<close>

theorem unbroken_cycle_hits_cap_witness:
  "graphs (engine_with ring_graph) ''ring'' = Some ring_graph \<and>
   resolve_functions None ring_graph = (None, ring_graph) \<and>
   all_standard ring_graph \<and> steps_return ring_graph \<and>
   every_node_has_successor ring_graph \<and> nonempty_ids ring_graph \<and>
   py_or None (get_start_node ring_graph) = Some ''a'' \<and> has_node ring_graph ''a'' \<and>
   (\<exists>visited cur s'.
      passes ring_graph max_iterations (initial_config ''a'' (new_state Map.empty ''run-1''))
        = Some (visited, max_iterations, cur, s') \<and>
      fst (run_graph (engine_with ring_graph) ''ring'' Map.empty None None ''run-1'')
        = Inr (s'\<lparr>error := Some ''Maximum iterations reached'', completed := True\<rparr>))"
proof -
  have h1: "graphs (engine_with ring_graph) ''ring'' = Some ring_graph"
    by (simp add: engine_with_def ring_graph_def)
  have h2: "resolve_functions None ring_graph = (None, ring_graph)"
    by (simp add: resolve_functions_def ring_graph_def step_node_def)
  have h3: "all_standard ring_graph"
    by (simp add: all_standard_def ring_graph_def step_node_def)
  have h4: "steps_return ring_graph"
    by (simp add: steps_return_def returns_normally_def ring_graph_def step_node_def noop_def)
  have h5: "every_node_has_successor ring_graph"
    by (simp add: every_node_has_successor_def has_node_def ring_graph_def)
  have h6: "nonempty_ids ring_graph"
    by (simp add: nonempty_ids_def ring_graph_def)
  have h7: "py_or None (get_start_node ring_graph) = Some ''a''"
    by (simp add: py_or_def get_start_node_def ring_graph_def)
  have h8: "has_node ring_graph ''a''"
    by (simp add: has_node_def ring_graph_def)
  from unbroken_cycle_hits_cap [OF h1 h2 h3 h4 h5 h6 h7 h8, of Map.empty "''run-1''"]
  show ?thesis using h1 h2 h3 h4 h5 h6 h7 h8 by simp
qed

text \<open>
  C5 as stated fails at two cycles of standard nodes. On the cycle through the node with
  the empty identity, the run executes \<open>a\<close>, takes the empty successor for "no next node"
  and completes without error after one pass. On the cycle whose first step raises, the
  run ends in the first pass with the message of the exception as its error.
\<close>

theorem cycle_can_end_early:
  "fst (run_graph (engine_with blank_ring) ''blank'' Map.empty None None ''run-1'') =
     Inr \<lparr>data = Map.empty, current_node = Some ''a'',
          execution_log =
            [\<lparr>node_id = ''engine'', message = ''Starting workflow from node: a'', result = PyNone\<rparr>,
             \<lparr>node_id = ''a'', message = ''Executing node: a'', result = PyNone\<rparr>,
             \<lparr>node_id = ''engine'', message = ''Workflow completed'', result = PyNone\<rparr>],
          run_id = ''run-1'', completed = True, error = None\<rparr> \<and>
   fst (run_graph (engine_with crash_ring) ''crash_ring'' Map.empty None None ''run-2'') =
     Inr \<lparr>data = Map.empty, current_node = Some ''a'',
          execution_log =
            [\<lparr>node_id = ''engine'', message = ''Starting workflow from node: a'', result = PyNone\<rparr>,
             \<lparr>node_id = ''a'', message = ''Executing node: a'', result = PyNone\<rparr>,
             \<lparr>node_id = ''engine'', message = ''Error: boom'', result = PyNone\<rparr>],
          run_id = ''run-2'', completed = True, error = Some ''boom''\<rparr>"
  by (simp add: blank_ring_def crash_ring_def example_defs engine_defs run_loop.simps)

section \<open>Errors raised by callables (C6)\<close>

lemma callable_raises_body:
  "callable_raises g c s m s' \<Longrightarrow> loop_body g visited c s = BodyRaised m s'"
  by (auto simp: callable_raises_def step_raises_def loop_condition_raises_def
      routing_raises_def loop_body_def route_def loop_callable_def routing_callable_def)

text \<open>
  C6. Take a run that got past the resolution and found a start node, and suppose that
  after \<open>n\<close> passes the loop enters node \<open>c\<close> in state \<open>s\<close> and that the step callable, the
  loop-continuation callable or the routing callable of \<open>c\<close> raises an exception with
  message \<open>m\<close>, leaving the state as \<open>s'\<close>. Then \<open>run_graph\<close> does not raise: it returns a
  state, the one in the run registry, whose error is \<open>m\<close>, whose completion flag is set, and
  whose log is the log of \<open>s'\<close> followed by the entry \<^verbatim>\<open>Error: m\<close>; nothing else was done
  after the raise, as the data mapping and the current-node pointer are those of \<open>s'\<close>.
\<close>

theorem callable_errors_caught:
  assumes "graphs eng gid = Some g"
    and "resolve_functions reg g = (None, g')"
    and "py_or start_node (get_start_node g') = Some c0" and "c0 \<noteq> []"
    and "passes g' n (initial_config c0 (new_state initial_state rid))
           = Some (visited, iteration, Some c, s)"
    and "c \<noteq> []" and "iteration < max_iterations"
    and "callable_raises g' c s m s'"
  shows "\<exists>st. fst (run_graph eng gid initial_state start_node reg rid) = Inr st \<and>
           get_run_state (snd (run_graph eng gid initial_state start_node reg rid)) rid = Some st \<and>
           error st = Some m \<and> completed st \<and>
           execution_log st = execution_log s' @ [error_entry m] \<and>
           data st = data s' \<and> current_node st = current_node s'"
proof -
  have "run_resolved g' start_node (new_state initial_state rid) = on_exception m s'"
    using run_resolved_start [OF assms(3,4,5)]
      run_from_raised [OF assms(6,7) callable_raises_body [OF assms(8)]]
    by simp
  then show ?thesis
    by (simp add: run_graph_resolved [OF assms(1,2)] get_run_state_def stored_def
        on_exception_def log_def error_entry_def)
qed

text \<open>The theorem at the graph \<open>a \<rightarrow> b\<close> whose second step raises \<open>boom\<close>, after one pass.\<close>

theorem callable_errors_caught_witness:
  "graphs (engine_with crash_graph) ''crash'' = Some crash_graph \<and>
   resolve_functions None crash_graph = (None, crash_graph) \<and>
   py_or None (get_start_node crash_graph) = Some ''a'' \<and>
   passes crash_graph 1 (initial_config ''a'' (new_state Map.empty ''run-1''))
     = Some ({''b''}, 1, Some ''b'', crash_at_b) \<and>
   (1::nat) < max_iterations \<and>
   callable_raises crash_graph ''b'' crash_at_b ''boom'' crash_raised \<and>
   (\<exists>st. fst (run_graph (engine_with crash_graph) ''crash'' Map.empty None None ''run-1'') = Inr st \<and>
      get_run_state (snd (run_graph (engine_with crash_graph) ''crash'' Map.empty None None ''run-1''))
        ''run-1'' = Some st \<and>
      error st = Some ''boom'' \<and> completed st \<and>
      execution_log st = execution_log crash_raised @ [error_entry ''boom''] \<and>
      data st = data crash_raised \<and> current_node st = current_node crash_raised)"
proof -
  have h1: "graphs (engine_with crash_graph) ''crash'' = Some crash_graph"
    by (simp add: engine_with_def crash_graph_def)
  have h2: "resolve_functions None crash_graph = (None, crash_graph)"
    by (simp add: resolve_functions_def crash_graph_def step_node_def)
  have h3: "py_or None (get_start_node crash_graph) = Some ''a''"
    by (simp add: py_or_def get_start_node_def crash_graph_def)
  have h4: "''a'' \<noteq> []" by simp
  have h5: "passes crash_graph 1 (initial_config ''a'' (new_state Map.empty ''run-1''))
      = Some ({''b''}, 1, Some ''b'', crash_at_b)"
    by (simp add: crash_graph_def crash_at_b_def example_defs engine_defs)
  have h6: "''b'' \<noteq> []" by simp
  have h7: "(1::nat) < max_iterations" by (simp add: max_iterations_def)
  have h8: "callable_raises crash_graph ''b'' crash_at_b ''boom'' crash_raised"
    by (simp add: callable_raises_def step_raises_def crash_graph_def crash_raised_def
        step_node_def failing_def)
  from callable_errors_caught [OF h1 h2 h3 h4 h5 h6 h7 h8]
  show ?thesis using h1 h2 h3 h5 h7 h8 by simp
qed

section \<open>Conditional routing (C7)\<close>

text \<open>
  C7, as the code has it. Let \<open>c\<close> be a conditional node with a routing callable, in a pass
  where the step callable returned and the routing callable returned \<open>v\<close>. If \<open>v\<close> is a
  non-empty string that is a node identity of the graph, the pass goes back to the loop
  test with that node as the next one, whatever the default edge is. If \<open>v\<close> is \<^verbatim>\<open>None\<close>, the
  empty string, or a string that is no node identity, the pass goes on with the default
  successor, as the completion check does for any node.
\<close>

theorem conditional_routing:
  assumes "map_of (nodes g) c = Some node"
    and "node_type node = CONDITIONAL" and "condition_func node = Some cond"
    and "call_func (func node) (enter_node node c s) = (Inr res, s1)"
    and "cond (record_result node res s1) = (Inr v, s2)"
  shows "(v = PyStr t \<and> t \<noteq> [] \<and> has_node g t \<longrightarrow>
            loop_body g visited c s =
              BodyContinue (insert t (if t \<in> visited then {} else visited)) (Some t) s2) \<and>
         (v = PyNone \<or> v = PyStr t \<and> (t = [] \<or> \<not> has_node g t) \<longrightarrow>
            loop_body g visited c s = check_completion node visited (map_of (edges g) c) s2)"
  using assms
  by (auto simp: loop_body_def route_def loop_callable_def routing_callable_def
      check_completion_def get_next_node_def)

text \<open>The theorem at the conditional node \<open>a\<close> with default edge to \<open>b\<close>: when the routing
  callable returns \<open>c\<close> the next node is \<open>c\<close>, when it returns the unknown \<open>zzz\<close> the next
  node is \<open>b\<close>.\<close>

theorem conditional_routing_witness:
  "has_node (branch_graph (PyStr ''c'')) ''c'' \<and>
   loop_body (branch_graph (PyStr ''c'')) {} ''a'' (new_state Map.empty ''run-1'') =
     BodyContinue {''c''} (Some ''c'') (branch_entered (PyStr ''c'')) \<and>
   \<not> has_node (branch_graph (PyStr ''zzz'')) ''zzz'' \<and>
   loop_body (branch_graph (PyStr ''zzz'')) {} ''a'' (new_state Map.empty ''run-1'') =
     BodyContinue {''b''} (Some ''b'') (branch_entered (PyStr ''zzz''))"
proof -
  have n: "map_of (nodes (branch_graph v)) ''a'' = Some (branch_node ''a'' (always v))" for v
    by (simp add: branch_graph_def)
  have ty: "node_type (branch_node ''a'' (always v)) = CONDITIONAL" for v
    by (simp add: branch_node_def)
  have cf: "condition_func (branch_node ''a'' (always v)) = Some (always v)" for v
    by (simp add: branch_node_def)
  have st: "call_func (func (branch_node ''a'' (always v)))
      (enter_node (branch_node ''a'' (always v)) ''a'' (new_state Map.empty ''run-1''))
      = (Inr PyNone, branch_entered v)" for v
    by (simp add: branch_node_def branch_entered_def noop_def)
  have rt: "always v (record_result (branch_node ''a'' (always v)) PyNone (branch_entered v))
      = (Inr v, branch_entered v)" for v
    by (simp add: always_def record_result_def)
  have h1: "has_node (branch_graph (PyStr ''c'')) ''c''"
    by (simp add: has_node_def branch_graph_def)
  have h2: "\<not> has_node (branch_graph (PyStr ''zzz'')) ''zzz''"
    by (simp add: has_node_def branch_graph_def)
  have e: "map_of (edges (branch_graph v)) ''a'' = Some ''b''" for v
    by (simp add: branch_graph_def)
  from conditional_routing [OF n ty cf st rt, of "PyStr ''c''" "''c''" "{}"]
    conditional_routing [OF n ty cf st rt, of "PyStr ''zzz''" "''zzz''" "{}"]
  show ?thesis using h1 h2 by (simp add: e check_completion_def)
qed

text \<open>
  C7 as stated fails when the graph has a node whose identity is the empty string and the
  routing callable returns that identity: the engine takes the empty string for "nothing"
  and goes on to the default successor \<open>b\<close>.
\<close>

theorem empty_identity_not_routed:
  "has_node (branch_graph (PyStr [])) [] \<and>
   loop_body (branch_graph (PyStr [])) {} ''a'' (new_state Map.empty ''run-1'') =
     BodyContinue {''b''} (Some ''b'') (branch_entered (PyStr []))"
  by (simp add: branch_graph_def branch_entered_def branch_node_def example_defs engine_defs)

section \<open>The start node (C8, C10)\<close>

lemma filter_first_index:
  "i < length xs \<Longrightarrow> P (xs ! i) \<Longrightarrow> (\<forall>j<i. \<not> P (xs ! j)) \<Longrightarrow> \<exists>ys. filter P xs = xs ! i # ys"
proof (induction xs arbitrary: i)
  case Nil
  then show ?case by simp
next
  case (Cons x xs)
  show ?case
  proof (cases i)
    case 0
    with Cons.prems show ?thesis by simp
  next
    case (Suc n)
    with Cons.prems have "\<not> P x" by auto
    moreover from Suc Cons.prems have "\<exists>ys. filter P xs = xs ! n # ys"
      by (intro Cons.IH) auto
    ultimately show ?thesis using Suc by simp
  qed
qed

text \<open>
  C8. For the empty graph \<open>get_start_node\<close> returns nothing. If the \<open>i\<close>-th declared node has
  no incoming default edge and every node declared before it has one, it returns that
  node. If the graph is not empty and every node has an incoming default edge, it returns
  the first declared node. The result is a function of the declaration order and the
  edges alone.
\<close>

theorem get_start_node_first_declared:
  "(nodes g = [] \<longrightarrow> get_start_node g = None) \<and>
   (i < length (declared g) \<and> \<not> has_incoming g (declared g ! i) \<and>
      (\<forall>j<i. has_incoming g (declared g ! j))
       \<longrightarrow> get_start_node g = Some (declared g ! i)) \<and>
   (nodes g \<noteq> [] \<and> (\<forall>k \<in> set (declared g). has_incoming g k)
       \<longrightarrow> get_start_node g = Some (declared g ! 0))"
proof (intro conjI impI)
  show "get_start_node g = None" if "nodes g = []"
    using that by (simp add: get_start_node_def)
next
  assume h: "i < length (declared g) \<and> \<not> has_incoming g (declared g ! i) \<and>
      (\<forall>j<i. has_incoming g (declared g ! j))"
  let ?P = "\<lambda>k. k \<notin> set (map snd (edges g))"
  have "\<exists>ys. filter ?P (declared g) = declared g ! i # ys"
    using h by (intro filter_first_index) (auto simp: has_incoming_def)
  moreover have "nodes g \<noteq> []" using h by (auto simp: declared_def)
  ultimately show "get_start_node g = Some (declared g ! i)"
    by (auto simp: get_start_node_def declared_def Let_def)
next
  assume h: "nodes g \<noteq> [] \<and> (\<forall>k \<in> set (declared g). has_incoming g k)"
  then have "filter (\<lambda>k. k \<notin> set (map snd (edges g))) (map fst (nodes g)) = []"
    by (auto simp: declared_def has_incoming_def filter_empty_conv)
  with h show "get_start_node g = Some (declared g ! 0)"
    by (cases "nodes g") (auto simp: get_start_node_def declared_def Let_def)
qed

text \<open>The theorem at the empty graph, at the graph where only the third declared node
  \<open>c\<close> has no incoming edge, and at the cycle \<open>a \<rightarrow> b \<rightarrow> a\<close>.\<close>

theorem get_start_node_first_declared_witness:
  "nodes (new_graph ''g'') = [] \<and> get_start_node (new_graph ''g'') = None \<and>
   \<not> has_incoming chain_graph ''c'' \<and> has_incoming chain_graph ''a'' \<and>
   has_incoming chain_graph ''b'' \<and> get_start_node chain_graph = Some ''c'' \<and>
   has_incoming ring_graph ''a'' \<and> has_incoming ring_graph ''b'' \<and>
   get_start_node ring_graph = Some ''a''"
  using get_start_node_first_declared [of "new_graph ''g''" 0]
    get_start_node_first_declared [of chain_graph 2]
    get_start_node_first_declared [of ring_graph 0]
  by (simp add: new_graph_def chain_graph_def ring_graph_def declared_def has_incoming_def
      less_Suc_eq numeral_2_eq_2)

lemma run_resolved_empty_start: "run_resolved g (Some []) s = run_resolved g None s"
  by (simp add: run_resolved_def py_or_def)

text \<open>
  C10. A call of \<open>run_graph\<close> with the empty string as start node returns the same result,
  and leaves the engine in the same state, as the call without a start node.
\<close>

theorem empty_start_node_inferred:
  "run_graph eng gid initial_state (Some []) reg rid = run_graph eng gid initial_state None reg rid"
  by (simp add: run_graph_def run_resolved_empty_start Let_def split: option.split prod.split)

text \<open>The theorem at the graph whose inferred start node is \<open>c\<close>: with the empty string as
  start node the run starts at \<open>c\<close>, goes on to \<open>a\<close> and \<open>b\<close>, and completes without error.\<close>

theorem empty_start_node_inferred_witness:
  "run_graph (engine_with chain_graph) ''chain'' Map.empty (Some []) None ''run-1'' =
     run_graph (engine_with chain_graph) ''chain'' Map.empty None None ''run-1'' \<and>
   fst (run_graph (engine_with chain_graph) ''chain'' Map.empty (Some []) None ''run-1'') =
     Inr \<lparr>data = Map.empty, current_node = Some ''b'',
          execution_log =
            [\<lparr>node_id = ''engine'', message = ''Starting workflow from node: c'', result = PyNone\<rparr>,
             \<lparr>node_id = ''c'', message = ''Executing node: c'', result = PyNone\<rparr>,
             \<lparr>node_id = ''a'', message = ''Executing node: a'', result = PyNone\<rparr>,
             \<lparr>node_id = ''b'', message = ''Executing node: b'', result = PyNone\<rparr>,
             \<lparr>node_id = ''engine'', message = ''Workflow completed'', result = PyNone\<rparr>],
          run_id = ''run-1'', completed = True, error = None\<rparr>"
proof -
  have "fst (run_graph (engine_with chain_graph) ''chain'' Map.empty None None ''run-1'') =
     Inr \<lparr>data = Map.empty, current_node = Some ''b'',
          execution_log =
            [\<lparr>node_id = ''engine'', message = ''Starting workflow from node: c'', result = PyNone\<rparr>,
             \<lparr>node_id = ''c'', message = ''Executing node: c'', result = PyNone\<rparr>,
             \<lparr>node_id = ''a'', message = ''Executing node: a'', result = PyNone\<rparr>,
             \<lparr>node_id = ''b'', message = ''Executing node: b'', result = PyNone\<rparr>,
             \<lparr>node_id = ''engine'', message = ''Workflow completed'', result = PyNone\<rparr>],
          run_id = ''run-1'', completed = True, error = None\<rparr>"
    by (simp add: chain_graph_def example_defs engine_defs run_loop.simps)
  with empty_start_node_inferred [of "engine_with chain_graph" "''chain''" Map.empty None "''run-1''"]
  show ?thesis by simp
qed

section \<open>Resolving twice (C9)\<close>

lemma resolve_nodes_idem:
  "resolve_nodes reg ns = (None, ns') \<Longrightarrow> resolve_nodes reg ns' = (None, ns')"
proof (induction ns arbitrary: ns')
  case Nil
  then show ?case by simp
next
  case (Cons p ns)
  obtain k node where p: "p = (k, node)" by (cases p)
  show ?case
    using Cons.prems Cons.IH unfolding p
    by (auto split: step_ref.splits option.splits if_splits sum.splits prod.splits)
qed

lemma is_resolved_Callable: "func node = Callable f \<Longrightarrow> is_resolved node"
  by (simp add: is_resolved_def)

lemma resolve_nodes_resolved:
  "resolve_nodes reg ns = (None, ns') \<Longrightarrow> list_all is_resolved (map snd ns')"
proof (induction ns arbitrary: ns')
  case Nil
  then show ?case by simp
next
  case (Cons p ns)
  obtain k node where p: "p = (k, node)" by (cases p)
  show ?case
    using Cons.prems Cons.IH unfolding p
    by (auto simp: is_resolved_Callable
        split: step_ref.splits option.splits if_splits sum.splits prod.splits)
qed

text \<open>
  C9. If \<open>resolve_functions\<close> has succeeded on a graph and left it as \<open>g'\<close>, then every node
  of \<open>g'\<close> holds a callable, and resolving \<open>g'\<close> again with the same registry succeeds and
  leaves \<open>g'\<close> exactly as it is; so a run on the graph resolved twice is the run on \<open>g'\<close>.
\<close>

theorem resolve_functions_idempotent:
  assumes "resolve_functions reg g = (None, g')"
  shows "resolve_functions reg g' = (None, g') \<and>
         list_all is_resolved (map snd (nodes g')) \<and>
         run_resolved (snd (resolve_functions reg g')) start_node s = run_resolved g' start_node s"
proof -
  obtain ns where ns: "resolve_nodes reg (nodes g) = (None, ns)"
    and g': "g' = g\<lparr>tool_registry := reg, nodes := ns\<rparr>"
    using assms by (auto simp: resolve_functions_def split: prod.splits)
  from resolve_nodes_idem [OF ns] resolve_nodes_resolved [OF ns] g'
  show ?thesis by (simp add: resolve_functions_def)
qed

text \<open>The theorem at a graph with one tool name and one callable, and a registry that knows
  the tool.\<close>

theorem resolve_functions_idempotent_witness:
  "resolve_functions (Some tool_box) named_graph = (None, named_graph_resolved) \<and>
   resolve_functions (Some tool_box) named_graph_resolved = (None, named_graph_resolved) \<and>
   list_all is_resolved (map snd (nodes named_graph_resolved))"
proof -
  have h: "resolve_functions (Some tool_box) named_graph = (None, named_graph_resolved)"
    by (simp add: resolve_functions_def named_graph_def named_graph_resolved_def tool_box_def
        step_node_def has_tool_def get_tool_def)
  from resolve_functions_idempotent [OF h] show ?thesis using h by simp
qed

end
